theory Spec2Isabelle
  imports Main "HOL-Library.Word"
begin

section \<open>JavaScript strings\<close>

text \<open>
  A JavaScript string is a sequence of UTF-16 code units. String literals of the
  script are written with \<open>js\<close>, which maps each character to its code unit.
\<close>

type_synonym jschar = "16 word"
type_synonym jsstring = "jschar list"

definition js :: "string \<Rightarrow> jsstring" where
  "js s = map of_char s"

abbreviation LF :: jschar where "LF \<equiv> 0x0A"
abbreviation CR :: jschar where "CR \<equiv> 0x0D"
abbreviation SPACE :: jschar where "SPACE \<equiv> 0x20"
abbreviation DQUOTE :: jschar where "DQUOTE \<equiv> 0x22"
abbreviation DOLLAR :: jschar where "DOLLAR \<equiv> 0x24"
abbreviation PLUS :: jschar where "PLUS \<equiv> 0x2B"
abbreviation COMMA :: jschar where "COMMA \<equiv> 0x2C"
abbreviation MINUS :: jschar where "MINUS \<equiv> 0x2D"
abbreviation DOT :: jschar where "DOT \<equiv> 0x2E"
abbreviation ZERO :: jschar where "ZERO \<equiv> 0x30"
abbreviation BAR :: jschar where "BAR \<equiv> 0x7C"
abbreviation POUND :: jschar where "POUND \<equiv> 0xA3"
abbreviation EURO :: jschar where "EURO \<equiv> 0x20AC"

text \<open>The regular-expression class \<open>\s\<close>, which is also the set \<open>trim\<close> strips:
  TAB, LF, VT, FF, CR, SPACE, NBSP, U+1680, U+2000..U+200A, U+2028, U+2029, U+202F,
  U+205F, U+3000 and U+FEFF.\<close>

definition is_space :: "jschar \<Rightarrow> bool" where
  "is_space c =
     (unat c \<in> {0x09, 0x0A, 0x0B, 0x0C, 0x0D, 0x20, 0xA0, 0x1680, 0x2028, 0x2029,
                 0x202F, 0x205F, 0x3000, 0xFEFF}
      \<or> (0x2000 \<le> unat c \<and> unat c \<le> 0x200A))"

text \<open>The class \<open>\d\<close>: the ASCII digits only.\<close>

definition is_digit :: "jschar \<Rightarrow> bool" where
  "is_digit c = (0x30 \<le> unat c \<and> unat c \<le> 0x39)"

text \<open>The class \<open>[A-Za-z]\<close>.\<close>

definition is_alpha :: "jschar \<Rightarrow> bool" where
  "is_alpha c = ((0x41 \<le> unat c \<and> unat c \<le> 0x5A) \<or> (0x61 \<le> unat c \<and> unat c \<le> 0x7A))"

section \<open>normalizeSpace\<close>

text \<open>
  \<^verbatim>\<open>(value || '').replace(/\s+/g, ' ').trim()\<close>

  \<open>collapse_ws\<close> is the global replace: every maximal run of white space becomes one
  SPACE. \<open>trim\<close> strips white space at both ends. A missing value (\<open>null\<close> or
  \<open>undefined\<close>, here \<open>None\<close>) counts as the empty string.
\<close>

function collapse_ws :: "jsstring \<Rightarrow> jsstring" where
  "collapse_ws [] = []"
| "collapse_ws (c # cs) =
     (if is_space c then SPACE # collapse_ws (dropWhile is_space cs)
      else c # collapse_ws cs)"
  by pat_completeness auto
termination
  by (relation "measure length") (auto simp: length_dropWhile_le less_Suc_eq_le)

definition trim :: "jsstring \<Rightarrow> jsstring" where
  "trim s = rev (dropWhile is_space (rev (dropWhile is_space s)))"

definition normalizeSpace :: "jsstring option \<Rightarrow> jsstring" where
  "normalizeSpace v = trim (collapse_ws (case v of None \<Rightarrow> [] | Some s \<Rightarrow> s))"

section \<open>Numbers as decimal strings\<close>

text \<open>\<open>String(n)\<close> for a non-negative integer \<open>n\<close> (below \<open>10^21\<close>, where JavaScript
  switches to exponent notation): its decimal digits, without leading zeros.\<close>

definition digit_char :: "nat \<Rightarrow> jschar" where
  "digit_char d = of_nat (0x30 + d)"

function dec_string :: "nat \<Rightarrow> jsstring" where
  "dec_string n = (if n < 10 then [digit_char n] else dec_string (n div 10) @ [digit_char (n mod 10)])"
  by pat_completeness auto
termination
  by (relation "measure id") auto

declare dec_string.simps [simp del]

section \<open>csvEscape\<close>

text \<open>
  \<^verbatim>\<open>
  const str = value == null ? '' : String(value);
  if (/[",\n]/.test(str)) return `"${str.replace(/"/g, '""')}"`;
  return str;
  \<close>
\<close>

definition has_csv_special :: "jsstring \<Rightarrow> bool" where
  "has_csv_special str = (\<exists>c \<in> set str. c = DQUOTE \<or> c = COMMA \<or> c = LF)"

definition double_quotes :: "jsstring \<Rightarrow> jsstring" where
  "double_quotes str = concat (map (\<lambda>c. if c = DQUOTE then [DQUOTE, DQUOTE] else [c]) str)"

definition csvEscape :: "jsstring option \<Rightarrow> jsstring" where
  "csvEscape v =
     (let str = (case v of None \<Rightarrow> [] | Some s \<Rightarrow> s)
      in if has_csv_special str then [DQUOTE] @ double_quotes str @ [DQUOTE] else str)"

subsection \<open>A CSV field reader\<close>

text \<open>
  Modelled from the spec: the "conformant CSV reader" of the round-trip property is
  not part of the script. This is the field grammar of RFC 4180 as readers apply it:
  fields are separated by a comma and records by a line break, which is a carriage
  return followed by a line feed, a line feed alone (as the serializer writes it) or a
  carriage return alone. A field that opens with a double quote runs to the closing
  quote, a doubled quote inside standing for one quote, and must be followed by a
  comma, a line break or the end of the text; any other field runs to the next comma
  or line break and holds no double quote. The reader returns the field and the
  unread rest, or \<open>None\<close> where the text is malformed.
\<close>

definition is_csv_sep :: "jschar \<Rightarrow> bool" where
  "is_csv_sep c = (c = COMMA \<or> c = LF \<or> c = CR)"

fun csv_read_quoted :: "jsstring \<Rightarrow> (jsstring \<times> jsstring) option" where
  "csv_read_quoted [] = None"
| "csv_read_quoted (c # cs) =
     (if c \<noteq> DQUOTE then map_option (apfst ((#) c)) (csv_read_quoted cs)
      else (case cs of
              [] \<Rightarrow> Some ([], [])
            | d # ds \<Rightarrow>
                if d = DQUOTE then map_option (apfst ((#) DQUOTE)) (csv_read_quoted ds)
                else if is_csv_sep d then Some ([], cs)
                else None))"

definition csv_read_field :: "jsstring \<Rightarrow> (jsstring \<times> jsstring) option" where
  "csv_read_field s =
     (case s of
        [] \<Rightarrow> Some ([], [])
      | c # cs \<Rightarrow>
          if c = DQUOTE then csv_read_quoted cs
          else (let field = takeWhile (\<lambda>x. \<not> is_csv_sep x) s
                in if DQUOTE \<in> set field then None
                   else Some (field, dropWhile (\<lambda>x. \<not> is_csv_sep x) s)))"

section \<open>parseDateToISO\<close>

text \<open>
  \<^verbatim>\<open>
  const MONTHS = { Jan: '01', Feb: '02', Mar: '03', Apr: '04', May: '05', Jun: '06',
                   Jul: '07', Aug: '08', Sep: '09', Oct: '10', Nov: '11', Dec: '12' };
  \<close>
  \<open>MONTHS[name]\<close> is \<open>undefined\<close> (here \<open>None\<close>) for every other string of three
  letters: \<open>Object.prototype\<close> has no property with such a name.
\<close>

definition MONTHS :: "jsstring \<Rightarrow> jsstring option" where
  "MONTHS =
     map_of [(js ''Jan'', js ''01''), (js ''Feb'', js ''02''), (js ''Mar'', js ''03''),
             (js ''Apr'', js ''04''), (js ''May'', js ''05''), (js ''Jun'', js ''06''),
             (js ''Jul'', js ''07''), (js ''Aug'', js ''08''), (js ''Sep'', js ''09''),
             (js ''Oct'', js ''10''), (js ''Nov'', js ''11''), (js ''Dec'', js ''12'')]"

text \<open>
  \<^verbatim>\<open>text.match(/^(\d{1,2})\s+([A-Za-z]{3})\s+(\d{4})$/)\<close>

  The matcher runs through the pattern from the left, each quantifier taking as much
  as it can: one or two digits, a run of white space, three letters, a run of white
  space, and four digits up to the end of the text. Giving back what a quantifier took
  never helps here, since the character given back (a digit, or white space) is not in
  the class that follows (white space, or a letter or digit). The result is the three
  captured groups.
\<close>

definition match_date :: "jsstring \<Rightarrow> (jsstring \<times> jsstring \<times> jsstring) option" where
  "match_date text =
     (let g1 = takeWhile is_digit (take 2 text);
          r1 = drop (length g1) text;
          r2 = dropWhile is_space r1;
          g2 = take 3 r2;
          r3 = drop 3 r2;
          r4 = dropWhile is_space r3
      in if g1 \<noteq> [] \<and> takeWhile is_space r1 \<noteq> []
            \<and> length g2 = 3 \<and> (\<forall>c \<in> set g2. is_alpha c)
            \<and> takeWhile is_space r3 \<noteq> []
            \<and> length r4 = 4 \<and> (\<forall>c \<in> set r4. is_digit c)
         then Some (g1, g2, r4) else None)"

text \<open>\<open>Number(s)\<close> for a string of decimal digits.\<close>

definition digit_value :: "jschar \<Rightarrow> nat" where
  "digit_value c = unat c - 0x30"

definition Number_of_digits :: "jsstring \<Rightarrow> nat" where
  "Number_of_digits s = foldl (\<lambda>n c. 10 * n + digit_value c) 0 s"

text \<open>\<open>s.padStart(n, c)\<close> for a pad string of one character.\<close>

definition padStart :: "nat \<Rightarrow> jschar \<Rightarrow> jsstring \<Rightarrow> jsstring" where
  "padStart n c s = replicate (n - length s) c @ s"

text \<open>
  \<^verbatim>\<open>
  const text = normalizeSpace(raw);
  const match = text.match(...);
  if (!match) return '';
  const day = String(Number(match[1])).padStart(2, '0');
  const month = MONTHS[match[2]];
  const year = match[3];
  return month ? `${year}-${month}-${day}` : '';
  \<close>
\<close>

definition parseDateToISO :: "jsstring option \<Rightarrow> jsstring" where
  "parseDateToISO raw =
     (case match_date (normalizeSpace raw) of
        None \<Rightarrow> []
      | Some (g1, g2, g3) \<Rightarrow>
          (let day = padStart 2 ZERO (dec_string (Number_of_digits g1))
           in case MONTHS g2 of
                None \<Rightarrow> []
              | Some month \<Rightarrow> g3 @ [MINUS] @ month @ [MINUS] @ day))"

section \<open>parseAmountValue\<close>

text \<open>
  \<^verbatim>\<open>text.match(/([+-]?)\s*(?:[$\u00A3\u20AC]|USD|GBP|EUR)?\s*(\d[\d,]*(?:\.\d{2})?)/i)\<close>
  (the class is written here with escapes for the pound and the euro sign, which the
  script has as literal characters).

  Under the flag \<open>i\<close> a letter of the pattern matches itself in either case, and no
  character outside ASCII; \<open>to_upper\<close> is the canonical form the comparison uses on
  ASCII letters.
\<close>

definition to_upper :: "jschar \<Rightarrow> jschar" where
  "to_upper c = (if 0x61 \<le> unat c \<and> unat c \<le> 0x7A then c - 0x20 else c)"

text \<open>\<open>(?:[$\u00A3\u20AC]|USD|GBP|EUR)?\<close> at the head of \<open>r\<close>: the rest after the marker, or
  \<open>r\<close> itself where there is none.\<close>

definition strip_marker :: "jsstring \<Rightarrow> jsstring" where
  "strip_marker r =
     (case r of
        [] \<Rightarrow> []
      | c # cs \<Rightarrow>
          if c = DOLLAR \<or> c = POUND \<or> c = EURO then cs
          else if length r \<ge> 3 \<and> map to_upper (take 3 r) \<in> {js ''USD'', js ''GBP'', js ''EUR''}
               then drop 3 r
               else r)"

text \<open>The class \<open>[\d,]\<close>.\<close>

definition is_group_char :: "jschar \<Rightarrow> bool" where
  "is_group_char c = (is_digit c \<or> c = COMMA)"

text \<open>\<open>(\d[\d,]*(?:\.\d{2})?)\<close> at the head of \<open>r\<close>: the captured text.\<close>

definition amount_digits :: "jsstring \<Rightarrow> jsstring option" where
  "amount_digits r =
     (case r of
        [] \<Rightarrow> None
      | d # ds \<Rightarrow>
          if is_digit d
          then (let rest = dropWhile is_group_char ds;
                    fraction = (case rest of
                                  p # a # b # _ \<Rightarrow>
                                    if p = DOT \<and> is_digit a \<and> is_digit b then [p, a, b] else []
                                | _ \<Rightarrow> [])
                in Some (d # takeWhile is_group_char ds @ fraction))
          else None)"

text \<open>
  One attempt to match the pattern at the head of \<open>t\<close>: the sign if there is one, white
  space, the currency marker if there is one, white space, and the digits. Each step
  takes as much as it can, and that decides the attempt: where the digits do not
  follow, giving back the marker, some white space or the sign leaves a character at
  the head (the marker's, a white space or the sign) that is no digit either. The
  result is the two captured groups.
\<close>

definition amount_at :: "jsstring \<Rightarrow> (jsstring \<times> jsstring) option" where
  "amount_at t =
     (let (sign, r1) = (case t of
                          [] \<Rightarrow> ([], [])
                        | c # cs \<Rightarrow> if c = PLUS \<or> c = MINUS then ([c], cs) else ([], t));
          r2 = dropWhile is_space r1;
          r3 = strip_marker r2;
          r4 = dropWhile is_space r3
      in map_option (\<lambda>v. (sign, v)) (amount_digits r4))"

text \<open>The pattern is not anchored: \<open>match\<close> tries the positions of the text from the
  left and returns the first match.\<close>

fun amount_match :: "jsstring \<Rightarrow> (jsstring \<times> jsstring) option" where
  "amount_match [] = amount_at []"
| "amount_match (c # cs) =
     (case amount_at (c # cs) of
        Some m \<Rightarrow> Some m
      | None \<Rightarrow> amount_match cs)"

text \<open>
  \<^verbatim>\<open>
  const text = normalizeSpace(rawText);
  const match = text.match(...);
  if (!match) return '';
  const sign = match[1] || '';
  const value = match[2].replace(/,/g, '');
  return `${sign}${value}`;
  \<close>
\<close>

definition parseAmountValue :: "jsstring option \<Rightarrow> jsstring" where
  "parseAmountValue rawText =
     (case amount_match (normalizeSpace rawText) of
        None \<Rightarrow> []
      | Some (sign, v) \<Rightarrow> sign @ filter (\<lambda>c. c \<noteq> COMMA) v)"

subsection \<open>The shape of an amount\<close>

text \<open>
  The parts of an amount text, in the words of the specification: an optional sign, an
  optional currency marker (one of the three symbols, or one of the three codes in
  either case), a digit followed by digits and commas, and an optional fraction of
  exactly two digits. White space may stand on either side of the marker.
\<close>

definition is_sign :: "jsstring \<Rightarrow> bool" where
  "is_sign sg = (sg = [] \<or> sg = [PLUS] \<or> sg = [MINUS])"

definition is_marker :: "jsstring \<Rightarrow> bool" where
  "is_marker mk =
     (mk = [] \<or> mk = [DOLLAR] \<or> mk = [POUND] \<or> mk = [EURO]
      \<or> map to_upper mk \<in> {js ''USD'', js ''GBP'', js ''EUR''})"

definition is_fraction :: "jsstring \<Rightarrow> bool" where
  "is_fraction fr =
     (case fr of
        [] \<Rightarrow> True
      | [p, a, b] \<Rightarrow> p = DOT \<and> is_digit a \<and> is_digit b
      | _ \<Rightarrow> False)"

definition amount_shape ::
  "jsstring \<Rightarrow> jsstring \<Rightarrow> jsstring \<Rightarrow> jsstring \<Rightarrow> jschar \<Rightarrow> jsstring \<Rightarrow> jsstring \<Rightarrow> bool" where
  "amount_shape sg w1 mk w2 d ds fr =
     (is_sign sg \<and> (\<forall>c \<in> set w1. is_space c) \<and> is_marker mk \<and> (\<forall>c \<in> set w2. is_space c)
      \<and> is_digit d \<and> (\<forall>c \<in> set ds. is_group_char c) \<and> is_fraction fr)"

text \<open>A text made of a sign, a marker and digits \<open>v\<close>, with white space on either side
  of the marker.\<close>

definition amount_form :: "jsstring \<Rightarrow> jsstring \<Rightarrow> jsstring \<Rightarrow> jsstring \<Rightarrow> bool" where
  "amount_form sg mk v t =
     (\<exists>s1 s2. (\<forall>c \<in> set s1. is_space c) \<and> (\<forall>c \<in> set s2. is_space c)
              \<and> t = sg @ s1 @ mk @ s2 @ v)"


text \<open>A currency code as the claim words it: any three letters.\<close>

definition is_currency_code :: "jsstring \<Rightarrow> bool" where
  "is_currency_code mk = (length mk = 3 \<and> (\<forall>c \<in> set mk. is_alpha c))"

subsection \<open>The shape of a date\<close>

text \<open>The parts of a date text, in the words of the specification: a day of one or two
  digits, a month of three letters and a year of four digits.\<close>

definition date_shape :: "jsstring \<Rightarrow> jsstring \<Rightarrow> jsstring \<Rightarrow> bool" where
  "date_shape d m y =
     ((length d = 1 \<or> length d = 2) \<and> (\<forall>c \<in> set d. is_digit c)
      \<and> length m = 3 \<and> (\<forall>c \<in> set m. is_alpha c)
      \<and> length y = 4 \<and> (\<forall>c \<in> set y. is_digit c))"

text \<open>A text is a date text when it is made of such parts with one space between them.\<close>

definition is_date_text :: "jsstring \<Rightarrow> bool" where
  "is_date_text s = (\<exists>d m y. date_shape d m y \<and> s = d @ [SPACE] @ m @ [SPACE] @ y)"

text \<open>No two white space characters stand side by side.\<close>

fun single_spaced :: "jsstring \<Rightarrow> bool" where
  "single_spaced (a # b # r) = (\<not> (is_space a \<and> is_space b) \<and> single_spaced (b # r))"
| "single_spaced _ = True"

section \<open>buildCsv\<close>

record tx =
  date :: jsstring
  cardDetails :: jsstring
  orderNumber :: jsstring
  totalAmount :: jsstring
  products :: "jsstring list"

text \<open>\<open>Array.prototype.join\<close> on an array of strings.\<close>

fun join :: "jsstring \<Rightarrow> jsstring list \<Rightarrow> jsstring" where
  "join sep [] = []"
| "join sep [x] = x"
| "join sep (x # y # ys) = x @ sep @ join sep (y # ys)"

text \<open>\<open>xs[i]\<close>: \<open>undefined\<close> (here \<open>None\<close>) out of range.\<close>

definition index :: "'a list \<Rightarrow> nat \<Rightarrow> 'a option" where
  "index xs i = (if i < length xs then Some (xs ! i) else None)"

text \<open>\<open>v || ''\<close> on a string or \<open>undefined\<close>: the empty string is falsy too.\<close>

definition or_empty :: "jsstring option \<Rightarrow> jsstring" where
  "or_empty v = (case v of None \<Rightarrow> [] | Some s \<Rightarrow> if s = [] then [] else s)"

text \<open>
  \<^verbatim>\<open>
  const maxProducts = rows.reduce(
    (max, row) => Math.max(max, Array.isArray(row.products) ? row.products.length : 0), 0);
  const productHeaders = Array.from({ length: maxProducts }, (_, i) => `product_${i + 1}`);
  const header = ['date', 'card_details', 'order_number', 'total_amount', ...productHeaders];
  const lines = [header.join(',')];
  for (const row of rows) {
    const productValues = Array.isArray(row.products) ? row.products : [];
    const paddedProducts = Array.from({ length: maxProducts }, (_, i) => productValues[i] || '');
    lines.push([row.date, row.cardDetails, row.orderNumber, row.totalAmount, ...paddedProducts]
        .map(csvEscape).join(','));
  }
  return lines.join('\n');
  \<close>
  The \<open>products\<close> of a record is always an array here, so \<open>Array.isArray\<close> holds.
\<close>

definition maxProducts :: "tx list \<Rightarrow> nat" where
  "maxProducts rows = foldl (\<lambda>mx row. max mx (length (products row))) 0 rows"

definition productHeaders :: "nat \<Rightarrow> jsstring list" where
  "productHeaders n = map (\<lambda>i. js ''product_'' @ dec_string (i + 1)) [0..<n]"

definition header :: "nat \<Rightarrow> jsstring list" where
  "header n = [js ''date'', js ''card_details'', js ''order_number'', js ''total_amount'']
              @ productHeaders n"

definition paddedProducts :: "nat \<Rightarrow> tx \<Rightarrow> jsstring list" where
  "paddedProducts n row = map (\<lambda>i. or_empty (index (products row) i)) [0..<n]"

definition row_fields :: "nat \<Rightarrow> tx \<Rightarrow> jsstring list" where
  "row_fields n row = [date row, cardDetails row, orderNumber row, totalAmount row]
                      @ paddedProducts n row"

definition buildCsv :: "tx list \<Rightarrow> jsstring" where
  "buildCsv rows =
     (let n = maxProducts rows;
          lines = [join [COMMA] (header n)]
                  @ map (\<lambda>row. join [COMMA] (map (\<lambda>f. csvEscape (Some f)) (row_fields n row))) rows
      in join [LF] lines)"

definition demo_rows :: "tx list" where
  "demo_rows =
     [\<lparr>date = js ''2024-01-05'', cardDetails = js ''Visa'', orderNumber = js ''A1'',
       totalAmount = js ''10.00'', products = []\<rparr>,
      \<lparr>date = js ''2024-01-06'', cardDetails = js ''Visa'', orderNumber = js ''A2'',
       totalAmount = js ''-5.00'', products = [js ''a,b'', js ''c'', js ''d'']\<rparr>,
      \<lparr>date = js '''', cardDetails = js '''', orderNumber = js ''A3'',
       totalAmount = js '''', products = [js ''e'']\<rparr>]"

section \<open>The Order Detail Enricher\<close>

text \<open>
  The collaborators of the enricher are platform functions, taken as parameters:
  \<^item> \<open>origin\<close>: \<open>window.location.origin\<close>;
  \<^item> \<open>encodeURIComponent\<close>, which throws a URIError (here \<open>None\<close>) on a string that is not
    well-formed UTF-16;
  \<^item> \<open>fetch\<close>: the answer of the network to a GET of a URL, which may depend on the URLs
    requested before; \<open>None\<close> is a rejected promise (a network error), and the \<open>body\<close>
    of a response is \<open>None\<close> where reading the body fails;
  \<^item> \<open>query_titles\<close>: \<open>DOMParser.parseFromString\<close> followed by the two
    \<open>querySelectorAll\<close> of parseProductsFromOrderHtml: the \<open>textContent\<close> of the elements
    under \<open>[data-component="itemTitle"] a.a-link-normal\<close> and of those under
    \<open>a.a-link-normal[href*="/dp/"]\<close>, in document order; \<open>None\<close> is an exception
    thrown while parsing.
\<close>

datatype response = Response (ok: bool) (body: "jsstring option")

record env =
  origin :: jsstring
  encodeURIComponent :: "jsstring \<Rightarrow> jsstring option"
  fetch :: "jsstring list \<Rightarrow> jsstring \<Rightarrow> response option"
  query_titles :: "jsstring \<Rightarrow> (jsstring list \<times> jsstring list) option"

datatype exn = URIError | NetworkError | BodyError | ParseError

text \<open>\<^verbatim>\<open>`${window.location.origin}/your-orders/order-details?orderID=${encodeURIComponent(orderNumber)}`\<close>\<close>

definition getOrderDetailsUrl :: "env \<Rightarrow> jsstring \<Rightarrow> jsstring option" where
  "getOrderDetailsUrl env orderNo =
     map_option (\<lambda>enc. origin env @ js ''/your-orders/order-details?orderID='' @ enc)
       (encodeURIComponent env orderNo)"

text \<open>\<open>[...new Set(xs)]\<close>: a Set keeps its elements in insertion order, and inserting an
  element it already holds changes nothing.\<close>

definition uniq :: "'a list \<Rightarrow> 'a list" where
  "uniq xs = fold (\<lambda>x acc. if x \<in> set acc then acc else acc @ [x]) xs []"

text \<open>
  \<^verbatim>\<open>
  const primary = Array.from(doc.querySelectorAll('[data-component="itemTitle"] a.a-link-normal'))
    .map((el) => normalizeSpace(el.textContent)).filter(Boolean);
  if (primary.length) return [...new Set(primary)];
  const fallback = Array.from(doc.querySelectorAll('a.a-link-normal[href*="/dp/"]'))
    .map((el) => normalizeSpace(el.textContent)).filter((text) => text.length > 2);
  return [...new Set(fallback)];
  \<close>
\<close>

definition parseProductsFromOrderHtml :: "env \<Rightarrow> jsstring \<Rightarrow> exn + jsstring list" where
  "parseProductsFromOrderHtml env htmlText =
     (case query_titles env htmlText of
        None \<Rightarrow> Inl ParseError
      | Some (item_titles, dp_links) \<Rightarrow>
          (let primary = filter (\<lambda>t. t \<noteq> []) (map (\<lambda>t. normalizeSpace (Some t)) item_titles)
           in if primary \<noteq> [] then Inr (uniq primary)
              else Inr (uniq (filter (\<lambda>t. length t > 2)
                                (map (\<lambda>t. normalizeSpace (Some t)) dp_links)))))"

text \<open>
  \<^verbatim>\<open>
  if (!orderNumber) return [];
  const url = getOrderDetailsUrl(orderNumber);
  const response = await fetch(url, { method: 'GET', credentials: 'include' });
  if (!response.ok) return [];
  const html = await response.text();
  return parseProductsFromOrderHtml(html);
  \<close>
  The function takes the list of the URLs requested so far and returns it extended by
  the request it issues, if any. \<open>Inl\<close> is a thrown exception.
\<close>

definition fetchOrderProducts ::
  "env \<Rightarrow> jsstring \<Rightarrow> jsstring list \<Rightarrow> (exn + jsstring list) \<times> jsstring list" where
  "fetchOrderProducts env orderNo requests =
     (if orderNo = [] then (Inr [], requests)
      else case getOrderDetailsUrl env orderNo of
        None \<Rightarrow> (Inl URIError, requests)
      | Some url \<Rightarrow>
          (case fetch env requests url of
             None \<Rightarrow> (Inl NetworkError, requests @ [url])
           | Some response \<Rightarrow>
               if \<not> ok response then (Inr [], requests @ [url])
               else (case body response of
                       None \<Rightarrow> (Inl BodyError, requests @ [url])
                     | Some html \<Rightarrow> (parseProductsFromOrderHtml env html, requests @ [url]))))"

text \<open>
  \<^verbatim>\<open>
  const cache = new Map();
  const uniqueOrders = [...new Set(rows.map((row) => row.orderNumber).filter(Boolean))];
  for (const orderNumber of uniqueOrders) {
    try {
      const products = await fetchOrderProducts(orderNumber);
      cache.set(orderNumber, products);
    } catch (error) {
      console.error(...);
      cache.set(orderNumber, []);
    }
    done += 1; if (typeof onProgress === 'function') onProgress(done, uniqueOrders.length);
    await sleep(150);
  }
  return rows.map((row) => ({ ...row, products: cache.get(row.orderNumber) || [] }));
  \<close>
  The state of the loop is the cache and the list of the URLs requested so far; the
  model returns that list beside the rows. The progress callback and the delay have no
  part in the result and are left out.
\<close>

definition uniqueOrders :: "tx list \<Rightarrow> jsstring list" where
  "uniqueOrders rows = uniq (filter (\<lambda>k. k \<noteq> []) (map orderNumber rows))"

type_synonym cache = "jsstring \<rightharpoonup> jsstring list"

definition enrich_step :: "env \<Rightarrow> jsstring \<Rightarrow> cache \<times> jsstring list \<Rightarrow> cache \<times> jsstring list" where
  "enrich_step env orderNo st =
     (case fetchOrderProducts env orderNo (snd st) of
        (Inr prods, requests) \<Rightarrow> ((fst st)(orderNo \<mapsto> prods), requests)
      | (Inl error, requests) \<Rightarrow> ((fst st)(orderNo \<mapsto> []), requests))"

fun enrich_loop :: "env \<Rightarrow> jsstring list \<Rightarrow> cache \<times> jsstring list \<Rightarrow> cache \<times> jsstring list" where
  "enrich_loop env [] st = st"
| "enrich_loop env (orderNo # rest) st = enrich_loop env rest (enrich_step env orderNo st)"

definition enrichTransactionsWithProducts :: "env \<Rightarrow> tx list \<Rightarrow> tx list \<times> jsstring list" where
  "enrichTransactionsWithProducts env rows =
     (let (cache, requests) = enrich_loop env (uniqueOrders rows) (Map.empty, [])
      in (map (\<lambda>row. row\<lparr>products := (case cache (orderNumber row) of
                                          None \<Rightarrow> [] | Some ps \<Rightarrow> ps)\<rparr>) rows,
          requests))"

text \<open>The distinct elements of a list in the order of their first occurrence.\<close>

fun first_occurrences :: "'a list \<Rightarrow> 'a list" where
  "first_occurrences [] = []"
| "first_occurrences (x # xs) = x # filter (\<lambda>y. y \<noteq> x) (first_occurrences xs)"

text \<open>The detail fetch of an order fails: its URL cannot be built, the request is
  rejected, the status is not a success, the body cannot be read, or parsing throws.\<close>

definition fetch_fails :: "env \<Rightarrow> jsstring list \<Rightarrow> jsstring \<Rightarrow> bool" where
  "fetch_fails env requests orderNo =
     (case getOrderDetailsUrl env orderNo of
        None \<Rightarrow> True
      | Some url \<Rightarrow>
          (case fetch env requests url of
             None \<Rightarrow> True
           | Some response \<Rightarrow>
               \<not> ok response \<or>
               (case body response of
                  None \<Rightarrow> True
                | Some html \<Rightarrow> query_titles env html = None)))"

text \<open>Where a definition below binds an order number, the variable is \<open>orderNo\<close>:
  \<open>orderNumber\<close> is the field of the record.\<close>

text \<open>A run to try the enricher on: the order \<open>B2\<close> meets a network error, every other
  order page lists \<open>Widget\<close> twice and \<open>Gadget\<close> once.\<close>

definition demo_env :: env where
  "demo_env =
     \<lparr>origin = js ''https://www.amazon.co.uk'',
      encodeURIComponent = Some,
      fetch = (\<lambda>requests url.
                 if url = js ''https://www.amazon.co.uk/your-orders/order-details?orderID=B2''
                 then None else Some (Response True (Some url))),
      query_titles = (\<lambda>html. Some ([js ''Widget'', js '' Widget '', js ''Gadget''], []))\<rparr>"

definition demo_orders :: "tx list" where
  "demo_orders =
     [\<lparr>date = js ''2024-01-05'', cardDetails = js ''Visa'', orderNumber = js ''A1'',
       totalAmount = js ''10.00'', products = []\<rparr>,
      \<lparr>date = js ''2024-01-05'', cardDetails = js ''Visa'', orderNumber = js ''A1'',
       totalAmount = js ''-5.00'', products = []\<rparr>,
      \<lparr>date = js ''2024-01-06'', cardDetails = js ''Visa'', orderNumber = js ''B2'',
       totalAmount = js ''7.00'', products = []\<rparr>,
      \<lparr>date = js ''2024-01-07'', cardDetails = js ''Visa'', orderNumber = [],
       totalAmount = js ''1.00'', products = []\<rparr>,
      \<lparr>date = js ''2024-01-08'', cardDetails = js ''Visa'', orderNumber = js ''C3'',
       totalAmount = js ''2.00'', products = []\<rparr>]"

section \<open>The Scroll-Driven Collector\<close>

text \<open>
  The collector reads the page through \<open>document.querySelectorAll\<close> and
  extractTransaction, scrolls, and waits. The page is a parameter here: \<open>doc n\<close> is
  the list of the \<open>transaction-link\<close> elements that the query of iteration \<open>n\<close>
  returns (as they are at that moment, after the scrolling and waiting of the
  iterations before), and \<open>extract\<close> is extractTransaction on such an element, \<open>None\<close>
  for \<open>null\<close>. Scrolling and sleeping act on the page only, so they show in \<open>doc\<close> alone.
\<close>

text \<open>\<^verbatim>\<open>`${tx.date}|${tx.cardDetails}|${tx.orderNumber}|${tx.totalAmount}`\<close>\<close>

definition tx_key :: "tx \<Rightarrow> jsstring" where
  "tx_key t = date t @ [BAR] @ cardDetails t @ [BAR] @ orderNumber t @ [BAR] @ totalAmount t"

definition STALL_LIMIT :: nat where
  "STALL_LIMIT = 8"

text \<open>The variables of collectTransactions; \<open>polls\<close> counts the iterations of the
  \<open>while\<close> loop begun so far, and is the index of the next query of the page.\<close>

record collector =
  records :: "tx list"
  seen :: "jsstring set"
  stallCount :: nat
  lastCount :: nat
  polls :: nat

text \<open>
  \<^verbatim>\<open>
  for (const link of links) {
    const tx = extractTransaction(link);
    if (!tx) continue;
    const key = ...;
    if (seen.has(key)) continue;
    seen.add(key);
    records.push(tx);
    if (records.length >= maxTransactions) break;
  }
  \<close>
\<close>

fun scan_links ::
  "('l \<Rightarrow> tx option) \<Rightarrow> nat \<Rightarrow> 'l list \<Rightarrow> tx list \<times> jsstring set \<Rightarrow> tx list \<times> jsstring set" where
  "scan_links extract maxTransactions [] (recs, sn) = (recs, sn)"
| "scan_links extract maxTransactions (link # links) (recs, sn) =
     (case extract link of
        None \<Rightarrow> scan_links extract maxTransactions links (recs, sn)
      | Some t \<Rightarrow>
          if tx_key t \<in> sn then scan_links extract maxTransactions links (recs, sn)
          else if length (recs @ [t]) \<ge> maxTransactions
               then (recs @ [t], insert (tx_key t) sn)
               else scan_links extract maxTransactions links (recs @ [t], insert (tx_key t) sn))"

text \<open>
  One iteration of the \<open>while\<close> loop, up to its \<open>break\<close>:
  \<^verbatim>\<open>
  const links = Array.from(document.querySelectorAll('[data-testid="transaction-link"]'));
  for (const link of links) { ... }
  if (records.length === lastCount) { stallCount += 1; }
  else { stallCount = 0; lastCount = records.length; }
  \<close>
\<close>

definition collect_step ::
  "('l \<Rightarrow> tx option) \<Rightarrow> (nat \<Rightarrow> 'l list) \<Rightarrow> nat \<Rightarrow> collector \<Rightarrow> collector" where
  "collect_step extract doc maxTransactions c =
     (let (recs, sn) = scan_links extract maxTransactions (doc (polls c)) (records c, seen c)
      in if length recs = lastCount c
         then c\<lparr>records := recs, seen := sn, stallCount := stallCount c + 1,
                polls := polls c + 1\<rparr>
         else c\<lparr>records := recs, seen := sn, stallCount := 0, lastCount := length recs,
                polls := polls c + 1\<rparr>)"

lemma scan_links_length:
  "length recs \<le> length (fst (scan_links extract mx links (recs, sn)))"
proof (induction links arbitrary: recs sn)
  case Nil
  then show ?case by simp
next
  case (Cons link links)
  show ?case
  proof (cases "extract link")
    case None
    with Cons show ?thesis by simp
  next
    case (Some t)
    from Cons [of "recs @ [t]" "insert (tx_key t) sn"]
    have "length recs \<le> length (fst (scan_links extract mx links (recs @ [t], insert (tx_key t) sn)))"
      by simp
    with Some Cons [of recs sn] show ?thesis by simp
  qed
qed

lemma collect_step_records:
  "records (collect_step extract doc mx c)
   = fst (scan_links extract mx (doc (polls c)) (records c, seen c))"
  by (simp add: collect_step_def Let_def case_prod_beta)

lemma collect_step_seen:
  "seen (collect_step extract doc mx c)
   = snd (scan_links extract mx (doc (polls c)) (records c, seen c))"
  by (simp add: collect_step_def Let_def case_prod_beta)

lemma collect_step_polls: "polls (collect_step extract doc mx c) = polls c + 1"
  by (simp add: collect_step_def Let_def case_prod_beta)

lemma collect_step_stallCount:
  "stallCount (collect_step extract doc mx c)
   = (if length (records (collect_step extract doc mx c)) = lastCount c
      then stallCount c + 1 else 0)"
  by (simp add: collect_step_def Let_def case_prod_beta)

lemma collect_step_lastCount:
  "lastCount (collect_step extract doc mx c) = length (records (collect_step extract doc mx c))"
  by (simp add: collect_step_def Let_def case_prod_beta)

lemma collect_step_grows:
  "length (records c) \<le> length (records (collect_step extract doc mx c))"
  by (simp add: collect_step_records scan_links_length)

text \<open>
  \<^verbatim>\<open>
  while (records.length < maxTransactions && stallCount < STALL_LIMIT) {
    ... one iteration ...
    if (records.length >= maxTransactions || stallCount >= STALL_LIMIT) break;
    ... scroll to the bottom; await sleep(WAIT_MS);
  }
  \<close>
  The loop ends on every page: an iteration either accepts a record, of which there
  are at most \<open>maxTransactions\<close>, or counts one more stall, of which there are less than
  \<open>STALL_LIMIT\<close> in a row.
\<close>

function collect_loop ::
  "('l \<Rightarrow> tx option) \<Rightarrow> (nat \<Rightarrow> 'l list) \<Rightarrow> nat \<Rightarrow> collector \<Rightarrow> collector" where
  "collect_loop extract doc maxTransactions c =
     (if length (records c) < maxTransactions \<and> stallCount c < STALL_LIMIT
      then (let c' = collect_step extract doc maxTransactions c
            in if length (records c') \<ge> maxTransactions \<or> stallCount c' \<ge> STALL_LIMIT
               then c'
               else collect_loop extract doc maxTransactions c')
      else c)"
  by pat_completeness auto
termination
proof (relation "measure (\<lambda>(extract, doc, mx, c).
          (mx - length (records c)) * (STALL_LIMIT + 1) + (STALL_LIMIT - stallCount c)
          + (if lastCount c = length (records c) then 0 else STALL_LIMIT + 1))", goal_cases)
  case 1
  then show ?case by simp
next
  case (2 ex doc mx c c')
  let ?n = "length (records c)" and ?n' = "length (records c')"
  from 2 have run: "?n < mx" "stallCount c < STALL_LIMIT"
    and go: "?n' < mx" "stallCount c' < STALL_LIMIT"
    and c': "c' = collect_step ex doc mx c"
    by auto
  have grow: "?n \<le> ?n'"
    unfolding c' by (rule collect_step_grows)
  have last: "lastCount c' = ?n'"
    unfolding c' by (rule collect_step_lastCount)
  have stall: "stallCount c' = (if ?n' = lastCount c then stallCount c + 1 else 0)"
    unfolding c' by (rule collect_step_stallCount)
  have "(mx - ?n') * 9 + (8 - stallCount c')
        < (mx - ?n) * 9 + (8 - stallCount c) + (if lastCount c = ?n then 0 else 9)"
    using run go grow stall unfolding STALL_LIMIT_def
    by (cases "?n' = ?n") (auto split: if_splits)
  with last show ?case
    by (auto simp add: STALL_LIMIT_def split: if_splits)
qed

declare collect_loop.simps [simp del]

text \<open>
  \<^verbatim>\<open>
  const records = []; const seen = new Set();
  let stallCount = 0; let lastCount = 0;
  while ...
  return records.slice(0, maxTransactions);
  \<close>
\<close>

definition collect_init :: collector where
  "collect_init = \<lparr>records = [], seen = {}, stallCount = 0, lastCount = 0, polls = 0\<rparr>"

definition collect_run ::
  "('l \<Rightarrow> tx option) \<Rightarrow> (nat \<Rightarrow> 'l list) \<Rightarrow> nat \<Rightarrow> collector" where
  "collect_run extract doc maxTransactions = collect_loop extract doc maxTransactions collect_init"

definition collectTransactions ::
  "('l \<Rightarrow> tx option) \<Rightarrow> (nat \<Rightarrow> 'l list) \<Rightarrow> nat \<Rightarrow> tx list" where
  "collectTransactions extract doc maxTransactions =
     take maxTransactions (records (collect_run extract doc maxTransactions))"

text \<open>
  The script keeps no state variable; the two ways out of the loop are the terminal
  states the spec names: \<open>Complete\<close> when the accepted count has reached
  \<open>maxTransactions\<close>, \<open>Stalled\<close> when the stall counter has reached \<open>STALL_LIMIT\<close>.
  \<open>Scanning\<close> is the state in which the loop goes on.
\<close>

datatype phase = Scanning | Complete | Stalled

definition phase_of :: "nat \<Rightarrow> collector \<Rightarrow> phase" where
  "phase_of maxTransactions c =
     (if length (records c) \<ge> maxTransactions then Complete
      else if stallCount c \<ge> STALL_LIMIT then Stalled
      else Scanning)"

text \<open>The records that the queries \<open>0, ..., n - 1\<close> of the page meet, in the order in
  which they are met.\<close>

definition encountered :: "('l \<Rightarrow> tx option) \<Rightarrow> (nat \<Rightarrow> 'l list) \<Rightarrow> nat \<Rightarrow> tx list" where
  "encountered extract doc n = concat (map (\<lambda>i. List.map_filter extract (doc i)) [0..<n])"

text \<open>The records of a list whose key is not in \<open>sn\<close> and has not occurred earlier in
  the list.\<close>

fun unseen :: "jsstring set \<Rightarrow> tx list \<Rightarrow> tx list" where
  "unseen sn [] = []"
| "unseen sn (t # ts) =
     (if tx_key t \<in> sn then unseen sn ts else t # unseen (insert (tx_key t) sn) ts)"

text \<open>Two pages to try the collector on. Their entries are numbers, and the record of
  entry \<open>n\<close> has the order number \<open>n\<close>. The static page shows the entries 1 and 2 at
  every query; the rotating page shows one entry at a time, entry \<open>n\<close> at query \<open>n\<close>,
  as a virtualized list that renders only what is in view.\<close>

definition numbered_tx :: "nat \<Rightarrow> tx option" where
  "numbered_tx n =
     Some \<lparr>date = [], cardDetails = [], orderNumber = dec_string n, totalAmount = [],
           products = []\<rparr>"

definition static_doc :: "nat \<Rightarrow> nat list" where
  "static_doc n = [1, 2]"

definition rotating_doc :: "nat \<Rightarrow> nat list" where
  "rotating_doc n = [n]"

text \<open>A third page scrolls by one entry per query, so that consecutive queries overlap:
  query \<open>n\<close> shows the entries \<open>n\<close> and \<open>n + 1\<close>.\<close>

definition overlapping_doc :: "nat \<Rightarrow> nat list" where
  "overlapping_doc n = [n, n + 1]"

section \<open>Properties of buildCsv\<close>

lemma foldl_max_Max:
  "foldl (\<lambda>mx row. max mx (f row)) a rows = Max (insert a (f ` set rows))"
proof (induction rows arbitrary: a)
  case Nil
  then show ?case by simp
next
  case (Cons r rows)
  have "Max (insert (max a (f r)) (f ` set rows)) = Max (insert a (insert (f r) (f ` set rows)))"
    by (cases "rows = []") (simp_all add: max.assoc)
  with Cons show ?case by simp
qed

lemma maxProducts_Max:
  "maxProducts rows = (if rows = [] then 0 else Max (set (map (\<lambda>r. length (products r)) rows)))"
proof (cases "rows = []")
  case True
  then show ?thesis by (simp add: maxProducts_def)
next
  case False
  then have "Max (insert 0 ((\<lambda>r. length (products r)) ` set rows))
           = Max ((\<lambda>r. length (products r)) ` set rows)"
    by (simp add: max_def)
  with False show ?thesis by (simp add: maxProducts_def foldl_max_Max)
qed

lemma maxProducts_ge: "r \<in> set rows \<Longrightarrow> length (products r) \<le> maxProducts rows"
  by (simp add: maxProducts_def foldl_max_Max)

lemma paddedProducts_replicate:
  "length (products r) \<le> n \<Longrightarrow>
   paddedProducts n r = products r @ replicate (n - length (products r)) []"
  by (rule nth_equalityI) (auto simp: paddedProducts_def or_empty_def index_def nth_append)

lemma productHeaders_upt:
  "productHeaders n = map (\<lambda>i. js ''product_'' @ dec_string i) [1..<Suc n]"
proof -
  have "map (\<lambda>i. js ''product_'' @ dec_string (i + 1)) [0..<n]
      = map (\<lambda>i. js ''product_'' @ dec_string i) (map Suc [0..<n])"
    by simp
  also have "map Suc [0..<n] = [1..<Suc n]"
    by (simp only: map_Suc_upt One_nat_def)
  finally show ?thesis
    by (simp only: productHeaders_def)
qed

text \<open>
  C5. The serializer's width, maxProducts, is the greatest \<open>products\<close> length over all
  rows (0 when there is no row); the text it returns is the line-feed join of a header
  line, the four fixed column names followed by \<open>product_1\<close> ... \<open>product_maxProducts\<close>,
  and one line per row, whose fields are the four scalars followed by the row's products
  padded with empty strings; and every padded product list has exactly maxProducts
  entries.
\<close>

theorem buildCsv_width:
  "maxProducts rows = (if rows = [] then 0 else Max (set (map (\<lambda>r. length (products r)) rows)))
   \<and> buildCsv rows =
       join [LF]
         (join [COMMA]
            ([js ''date'', js ''card_details'', js ''order_number'', js ''total_amount'']
             @ map (\<lambda>i. js ''product_'' @ dec_string i) [1..<Suc (maxProducts rows)])
          # map (\<lambda>r. join [COMMA]
                    (map (\<lambda>f. csvEscape (Some f))
                       ([date r, cardDetails r, orderNumber r, totalAmount r]
                        @ products r
                        @ replicate (maxProducts rows - length (products r)) [])))
              rows)
   \<and> (\<forall>r \<in> set rows.
         length (products r @ replicate (maxProducts rows - length (products r)) [])
         = maxProducts rows)"
proof (intro conjI ballI)
  show "maxProducts rows = (if rows = [] then 0 else Max (set (map (\<lambda>r. length (products r)) rows)))"
    by (rule maxProducts_Max)
next
  have "map (\<lambda>row. join [COMMA] (map (\<lambda>f. csvEscape (Some f)) (row_fields (maxProducts rows) row))) rows
      = map (\<lambda>r. join [COMMA]
                    (map (\<lambda>f. csvEscape (Some f))
                       ([date r, cardDetails r, orderNumber r, totalAmount r]
                        @ products r
                        @ replicate (maxProducts rows - length (products r)) [])))
              rows"
    by (rule map_cong [OF refl])
       (simp only: row_fields_def paddedProducts_replicate [OF maxProducts_ge])
  then show "buildCsv rows =
       join [LF]
         (join [COMMA]
            ([js ''date'', js ''card_details'', js ''order_number'', js ''total_amount'']
             @ map (\<lambda>i. js ''product_'' @ dec_string i) [1..<Suc (maxProducts rows)])
          # map (\<lambda>r. join [COMMA]
                    (map (\<lambda>f. csvEscape (Some f))
                       ([date r, cardDetails r, orderNumber r, totalAmount r]
                        @ products r
                        @ replicate (maxProducts rows - length (products r)) [])))
              rows)"
    unfolding buildCsv_def Let_def header_def productHeaders_upt
    by (simp only: append_Cons append_Nil)
next
  fix r assume "r \<in> set rows"
  then show "length (products r @ replicate (maxProducts rows - length (products r)) [])
         = maxProducts rows"
    using maxProducts_ge [of r rows] by simp
qed

theorem buildCsv_width_witness:
  "maxProducts demo_rows = 3
   \<and> buildCsv demo_rows =
       join [LF]
         [js ''date,card_details,order_number,total_amount,product_1,product_2,product_3'',
          js ''2024-01-05,Visa,A1,10.00,,,'',
          js ''2024-01-06,Visa,A2,-5.00,\"a,b\",c,d'',
          js '',,A3,,e,,'']
   \<and> map (\<lambda>r. length (products r @ replicate (maxProducts demo_rows - length (products r)) []))
         demo_rows = [3, 3, 3]"
proof -
  have m: "maxProducts demo_rows = 3"
    by (simp add: maxProducts_def demo_rows_def)
  have u: "[1..<Suc 3] = [1, 2, 3]"
    by (simp add: upt_rec)
  have r3: "replicate 3 x = [x, x, x]" and r2: "replicate 2 x = [x, x]" for x :: jsstring
    by (simp_all add: numeral_3_eq_3 numeral_2_eq_2)
  have "buildCsv demo_rows =
       join [LF]
         [js ''date,card_details,order_number,total_amount,product_1,product_2,product_3'',
          js ''2024-01-05,Visa,A1,10.00,,,'',
          js ''2024-01-06,Visa,A2,-5.00,\"a,b\",c,d'',
          js '',,A3,,e,,'']"
    unfolding buildCsv_width [of demo_rows, THEN conjunct2, THEN conjunct1] m u
    by (simp add: demo_rows_def js_def csvEscape_def has_csv_special_def double_quotes_def
        dec_string.simps digit_char_def r3 r2)
  moreover have "map (\<lambda>r. length (products r @ replicate (maxProducts demo_rows - length (products r)) []))
         demo_rows = [3, 3, 3]"
    unfolding m by (simp add: demo_rows_def)
  ultimately show ?thesis using m by simp
qed

section \<open>Properties of the enricher\<close>

lemma fold_uniq_acc:
  "distinct acc \<Longrightarrow>
   fold (\<lambda>x acc. if x \<in> set acc then acc else acc @ [x]) xs acc
   = acc @ filter (\<lambda>y. y \<notin> set acc) (first_occurrences xs)"
proof (induction xs arbitrary: acc)
  case Nil
  then show ?case by simp
next
  case (Cons x xs)
  show ?case
  proof (cases "x \<in> set acc")
    case True
    then have "filter (\<lambda>y. y \<notin> set acc) (filter (\<lambda>y. y \<noteq> x) (first_occurrences xs))
             = filter (\<lambda>y. y \<notin> set acc) (first_occurrences xs)"
      by (auto intro: filter_cong)
    with True Cons show ?thesis by simp
  next
    case False
    then have "filter (\<lambda>y. y \<notin> set (acc @ [x])) (first_occurrences xs)
             = filter (\<lambda>y. y \<notin> set acc) (filter (\<lambda>y. y \<noteq> x) (first_occurrences xs))"
      by (auto intro: filter_cong)
    with False Cons.prems Cons.IH [of "acc @ [x]"] show ?thesis by simp
  qed
qed

lemma uniq_first_occurrences: "uniq xs = first_occurrences xs"
  using fold_uniq_acc [of "[]" xs] by (simp add: uniq_def)

lemma set_first_occurrences: "set (first_occurrences xs) = set xs"
  by (induction xs) auto

lemma distinct_first_occurrences: "distinct (first_occurrences xs)"
  by (induction xs) auto

lemma set_uniqueOrders:
  "set (uniqueOrders rows) = {k. k \<noteq> [] \<and> k \<in> orderNumber ` set rows}"
  by (auto simp: uniqueOrders_def uniq_first_occurrences set_first_occurrences)

lemma snd_fetchOrderProducts:
  "snd (fetchOrderProducts env k reqs) =
     (if k = [] then reqs
      else case getOrderDetailsUrl env k of None \<Rightarrow> reqs | Some url \<Rightarrow> reqs @ [url])"
  by (simp add: fetchOrderProducts_def split: option.splits)

lemma snd_enrich_step:
  "k \<noteq> [] \<Longrightarrow>
   snd (enrich_step env k st) = snd st @ List.map_filter (getOrderDetailsUrl env) [k]"
  using snd_fetchOrderProducts [of env k "snd st"]
  by (auto simp: enrich_step_def List.map_filter_simps split: prod.splits sum.splits option.splits)

lemma fst_enrich_step:
  "fst (enrich_step env k st) k' =
     (if k' = k
      then Some (case fst (fetchOrderProducts env k (snd st)) of Inl e \<Rightarrow> [] | Inr ps \<Rightarrow> ps)
      else fst st k')"
  by (auto simp: enrich_step_def split: prod.splits sum.splits)

lemma enrich_loop_append:
  "enrich_loop env (xs @ ys) st = enrich_loop env ys (enrich_loop env xs st)"
  by (induction xs arbitrary: st) auto

lemma snd_enrich_loop:
  "[] \<notin> set ks \<Longrightarrow>
   snd (enrich_loop env ks st) = snd st @ List.map_filter (getOrderDetailsUrl env) ks"
proof (induction ks arbitrary: st)
  case Nil
  then show ?case by (simp add: List.map_filter_simps)
next
  case (Cons k ks)
  then have "k \<noteq> []" and "[] \<notin> set ks" by auto
  with Cons.IH [of "enrich_step env k st"] snd_enrich_step [of k env st]
  show ?case
    by (simp add: List.map_filter_simps split: option.splits)
qed

lemma fst_enrich_loop_other:
  "k \<notin> set ks \<Longrightarrow> fst (enrich_loop env ks st) k = fst st k"
  by (induction ks arbitrary: st) (auto simp: fst_enrich_step)

lemma dom_enrich_loop:
  "dom (fst (enrich_loop env ks st)) = dom (fst st) \<union> set ks"
proof (induction ks arbitrary: st)
  case Nil
  then show ?case by simp
next
  case (Cons k ks)
  have "dom (fst (enrich_step env k st)) = insert k (dom (fst st))"
    by (auto simp: fst_enrich_step dom_def)
  with Cons show ?case by simp
qed

lemma map_filter_all_Some:
  "\<forall>k \<in> set ks. f k \<noteq> None \<Longrightarrow> map Some (List.map_filter f ks) = map f ks"
  by (induction ks) (auto simp: List.map_filter_simps split: option.splits)


lemma fetch_fails_empty:
  "fetch_fails env reqs k \<Longrightarrow>
   (case fst (fetchOrderProducts env k reqs) of Inl e \<Rightarrow> [] | Inr ps \<Rightarrow> ps) = []"
  by (auto simp: fetch_fails_def fetchOrderProducts_def parseProductsFromOrderHtml_def
      split: option.splits)

lemma uniqueOrders_nonempty: "[] \<notin> set (uniqueOrders rows)"
  by (simp add: set_uniqueOrders)

lemma enriched_rows:
  "fst (enrichTransactionsWithProducts env rows) =
     map (\<lambda>row. row\<lparr>products :=
                  (case fst (enrich_loop env (uniqueOrders rows) (Map.empty, [])) (orderNumber row) of
                     None \<Rightarrow> [] | Some ps \<Rightarrow> ps)\<rparr>) rows"
  by (simp add: enrichTransactionsWithProducts_def Let_def case_prod_beta)

lemma enriched_requests:
  "snd (enrichTransactionsWithProducts env rows) =
     List.map_filter (getOrderDetailsUrl env) (uniqueOrders rows)"
  using snd_enrich_loop [OF uniqueOrders_nonempty, of env rows "(Map.empty, [])"]
  by (simp add: enrichTransactionsWithProducts_def Let_def case_prod_beta)

text \<open>
  C3. The URLs the enricher requests are those of the distinct non-empty order numbers of
  the rows, one request each, in the order of first occurrence (an order number whose URL
  cannot be built is skipped; where every URL can be built, as for the order numbers
  made of letters, digits and hyphens that the extractor yields, every distinct
  non-empty order number has its request). The rows come back in the same number and
  order, with every field but \<open>products\<close> unchanged; two rows with the same order number
  carry the same products; a row with an empty order number carries none.
\<close>

theorem enrich_once_per_order:
  "snd (enrichTransactionsWithProducts env rows) =
     List.map_filter (getOrderDetailsUrl env)
       (first_occurrences (filter (\<lambda>k. k \<noteq> []) (map orderNumber rows)))
   \<and> ((\<forall>r \<in> set rows. encodeURIComponent env (orderNumber r) \<noteq> None) \<longrightarrow>
        map Some (snd (enrichTransactionsWithProducts env rows)) =
          map (getOrderDetailsUrl env)
            (first_occurrences (filter (\<lambda>k. k \<noteq> []) (map orderNumber rows))))
   \<and> map (\<lambda>r. (date r, cardDetails r, orderNumber r, totalAmount r))
         (fst (enrichTransactionsWithProducts env rows))
       = map (\<lambda>r. (date r, cardDetails r, orderNumber r, totalAmount r)) rows
   \<and> (\<forall>i < length rows. \<forall>j < length rows.
         orderNumber (rows ! i) = orderNumber (rows ! j) \<longrightarrow>
         products (fst (enrichTransactionsWithProducts env rows) ! i)
         = products (fst (enrichTransactionsWithProducts env rows) ! j))
   \<and> (\<forall>i < length rows.
         orderNumber (rows ! i) = [] \<longrightarrow>
         products (fst (enrichTransactionsWithProducts env rows) ! i) = [])"
proof (intro conjI impI allI)
  show req: "snd (enrichTransactionsWithProducts env rows) =
     List.map_filter (getOrderDetailsUrl env)
       (first_occurrences (filter (\<lambda>k. k \<noteq> []) (map orderNumber rows)))"
    by (simp only: enriched_requests uniqueOrders_def uniq_first_occurrences)
  assume "\<forall>r \<in> set rows. encodeURIComponent env (orderNumber r) \<noteq> None"
  then have "\<forall>k \<in> set (first_occurrences (filter (\<lambda>k. k \<noteq> []) (map orderNumber rows))).
               getOrderDetailsUrl env k \<noteq> None"
    by (auto simp: set_first_occurrences getOrderDetailsUrl_def)
  then show "map Some (snd (enrichTransactionsWithProducts env rows)) =
          map (getOrderDetailsUrl env)
            (first_occurrences (filter (\<lambda>k. k \<noteq> []) (map orderNumber rows)))"
    unfolding req by (rule map_filter_all_Some)
next
  show "map (\<lambda>r. (date r, cardDetails r, orderNumber r, totalAmount r))
         (fst (enrichTransactionsWithProducts env rows))
       = map (\<lambda>r. (date r, cardDetails r, orderNumber r, totalAmount r)) rows"
    by (simp add: enriched_rows comp_def)
next
  fix i j
  assume "i < length rows" "j < length rows" "orderNumber (rows ! i) = orderNumber (rows ! j)"
  then show "products (fst (enrichTransactionsWithProducts env rows) ! i)
         = products (fst (enrichTransactionsWithProducts env rows) ! j)"
    by (simp add: enriched_rows)
next
  fix i
  assume i: "i < length rows" and e: "orderNumber (rows ! i) = []"
  have "[] \<notin> dom (fst (enrich_loop env (uniqueOrders rows) (Map.empty, [])))"
    by (simp add: dom_enrich_loop uniqueOrders_nonempty)
  then have "fst (enrich_loop env (uniqueOrders rows) (Map.empty, [])) [] = None"
    by (simp add: domIff)
  with i e show "products (fst (enrichTransactionsWithProducts env rows) ! i) = []"
    by (simp add: enriched_rows)
qed

text \<open>
  C8. Let the detail fetch of an order key fail when its turn comes: its URL cannot be
  built, the request is rejected, the status is not a success, the body cannot be read,
  or parsing the body throws. Then every row of that order comes back with an empty
  product list, the enricher still returns every row, every key after the failed one
  still has its request issued, and every key has its entry in the cache.
\<close>

theorem enrich_survives_failure:
  assumes "uniqueOrders rows = before @ k # after"
    and "fetch_fails env (snd (enrich_loop env before (Map.empty, []))) k"
  shows "(\<forall>i < length rows.
            orderNumber (rows ! i) = k \<longrightarrow>
            products (fst (enrichTransactionsWithProducts env rows) ! i) = [])
       \<and> length (fst (enrichTransactionsWithProducts env rows)) = length rows
       \<and> snd (enrichTransactionsWithProducts env rows) =
           snd (enrich_step env k (enrich_loop env before (Map.empty, [])))
           @ List.map_filter (getOrderDetailsUrl env) after
       \<and> dom (fst (enrich_loop env (uniqueOrders rows) (Map.empty, []))) = set (uniqueOrders rows)"
proof -
  let ?s1 = "enrich_loop env before (Map.empty, [])"
  have "distinct (uniqueOrders rows)"
    by (simp add: uniqueOrders_def uniq_first_occurrences distinct_first_occurrences)
  with assms(1) have k_after: "k \<notin> set after" by simp
  have ne: "[] \<notin> set after"
    using uniqueOrders_nonempty [of rows] assms(1) by auto
  have run: "enrich_loop env (uniqueOrders rows) (Map.empty, [])
           = enrich_loop env after (enrich_step env k ?s1)"
    using assms(1) enrich_loop_append [of env before "k # after"] by simp
  have "fst (enrich_loop env (uniqueOrders rows) (Map.empty, [])) k
      = fst (enrich_step env k ?s1) k"
    unfolding run by (rule fst_enrich_loop_other [OF k_after])
  also have "\<dots> = Some []"
    using fetch_fails_empty [OF assms(2)] by (simp add: fst_enrich_step)
  finally have entry: "fst (enrich_loop env (uniqueOrders rows) (Map.empty, [])) k = Some []" .
  have rq: "snd (enrichTransactionsWithProducts env rows) =
           snd (enrich_step env k ?s1) @ List.map_filter (getOrderDetailsUrl env) after"
    using snd_enrich_loop [OF ne, of env "enrich_step env k ?s1"] run
    by (simp add: enrichTransactionsWithProducts_def Let_def case_prod_beta)
  show ?thesis
  proof (intro conjI allI impI)
    fix i assume "i < length rows" "orderNumber (rows ! i) = k"
    with entry show "products (fst (enrichTransactionsWithProducts env rows) ! i) = []"
      by (simp add: enriched_rows)
  next
    show "length (fst (enrichTransactionsWithProducts env rows)) = length rows"
      by (simp add: enriched_rows)
  next
    show "snd (enrichTransactionsWithProducts env rows) =
           snd (enrich_step env k ?s1) @ List.map_filter (getOrderDetailsUrl env) after"
      by (rule rq)
  next
    show "dom (fst (enrich_loop env (uniqueOrders rows) (Map.empty, []))) = set (uniqueOrders rows)"
      by (simp add: dom_enrich_loop)
  qed
qed



lemma demo_uniqueOrders: "uniqueOrders demo_orders = [js ''A1'', js ''B2'', js ''C3'']"
  by (simp add: uniqueOrders_def uniq_def demo_orders_def js_def)

theorem enrich_once_per_order_witness:
  "snd (enrichTransactionsWithProducts demo_env demo_orders) =
     [js ''https://www.amazon.co.uk/your-orders/order-details?orderID=A1'',
      js ''https://www.amazon.co.uk/your-orders/order-details?orderID=B2'',
      js ''https://www.amazon.co.uk/your-orders/order-details?orderID=C3'']
   \<and> products (fst (enrichTransactionsWithProducts demo_env demo_orders) ! 0)
       = products (fst (enrichTransactionsWithProducts demo_env demo_orders) ! 1)
   \<and> products (fst (enrichTransactionsWithProducts demo_env demo_orders) ! 3) = []"
proof -
  note t = enrich_once_per_order [of demo_env demo_orders]
  have fo: "first_occurrences (filter (\<lambda>k. k \<noteq> []) (map orderNumber demo_orders))
            = [js ''A1'', js ''B2'', js ''C3'']"
    by (simp add: demo_orders_def js_def)
  have h: "\<forall>r \<in> set demo_orders. encodeURIComponent demo_env (orderNumber r) \<noteq> None"
    by (simp add: demo_env_def)
  have "map Some (snd (enrichTransactionsWithProducts demo_env demo_orders)) =
          map (getOrderDetailsUrl demo_env) [js ''A1'', js ''B2'', js ''C3'']"
    using t [THEN conjunct2, THEN conjunct1, THEN mp, OF h] unfolding fo .
  also have "\<dots> = map Some
     [js ''https://www.amazon.co.uk/your-orders/order-details?orderID=A1'',
      js ''https://www.amazon.co.uk/your-orders/order-details?orderID=B2'',
      js ''https://www.amazon.co.uk/your-orders/order-details?orderID=C3'']"
    by (simp add: getOrderDetailsUrl_def demo_env_def js_def)
  finally have "snd (enrichTransactionsWithProducts demo_env demo_orders) =
     [js ''https://www.amazon.co.uk/your-orders/order-details?orderID=A1'',
      js ''https://www.amazon.co.uk/your-orders/order-details?orderID=B2'',
      js ''https://www.amazon.co.uk/your-orders/order-details?orderID=C3'']"
    by (simp only: inj_map_eq_map [OF inj_Some])
  moreover have "products (fst (enrichTransactionsWithProducts demo_env demo_orders) ! 0)
       = products (fst (enrichTransactionsWithProducts demo_env demo_orders) ! 1)"
    using t by (simp add: demo_orders_def)
  moreover have "products (fst (enrichTransactionsWithProducts demo_env demo_orders) ! 3) = []"
    using t by (simp add: demo_orders_def)
  ultimately show ?thesis by blast
qed

theorem enrich_survives_failure_witness:
  "uniqueOrders demo_orders = [js ''A1''] @ js ''B2'' # [js ''C3'']
   \<and> fetch_fails demo_env (snd (enrich_loop demo_env [js ''A1''] (Map.empty, []))) (js ''B2'')
   \<and> products (fst (enrichTransactionsWithProducts demo_env demo_orders) ! 2) = []
   \<and> length (fst (enrichTransactionsWithProducts demo_env demo_orders)) = 5
   \<and> dom (fst (enrich_loop demo_env (uniqueOrders demo_orders) (Map.empty, [])))
       = {js ''A1'', js ''B2'', js ''C3''}"
proof -
  have u: "uniqueOrders demo_orders = [js ''A1''] @ js ''B2'' # [js ''C3'']"
    by (simp add: demo_uniqueOrders)
  have f: "fetch_fails demo_env (snd (enrich_loop demo_env [js ''A1''] (Map.empty, []))) (js ''B2'')"
    by (simp add: fetch_fails_def getOrderDetailsUrl_def demo_env_def js_def)
  note t = enrich_survives_failure [OF u f]
  have "products (fst (enrichTransactionsWithProducts demo_env demo_orders) ! 2) = []"
    using t by (simp add: demo_orders_def)
  moreover have "length (fst (enrichTransactionsWithProducts demo_env demo_orders)) = 5"
    using t by (simp add: demo_orders_def)
  moreover have "dom (fst (enrich_loop demo_env (uniqueOrders demo_orders) (Map.empty, [])))
       = {js ''A1'', js ''B2'', js ''C3''}"
    using t by (simp add: demo_uniqueOrders)
  ultimately show ?thesis using u f by blast
qed

section \<open>Properties of the collector\<close>

lemma unseen_append:
  "unseen sn (xs @ ys) = unseen sn xs @ unseen (sn \<union> tx_key ` set xs) ys"
proof (induction xs arbitrary: sn)
  case Nil
  then show ?case by simp
next
  case (Cons x xs)
  then show ?case by (simp add: insert_absorb)
qed

lemma keys_unseen: "sn \<union> tx_key ` set (unseen sn xs) = sn \<union> tx_key ` set xs"
proof (induction xs arbitrary: sn)
  case Nil
  then show ?case by simp
next
  case (Cons x xs)
  show ?case
  proof (cases "tx_key x \<in> sn")
    case True
    with Cons [of sn] show ?thesis by auto
  next
    case False
    with Cons [of "insert (tx_key x) sn"] show ?thesis by auto
  qed
qed

lemma unseen_fresh: "t \<in> set (unseen sn xs) \<Longrightarrow> tx_key t \<notin> sn"
proof (induction xs arbitrary: sn)
  case Nil
  then show ?case by simp
next
  case (Cons x xs)
  then show ?case by (fastforce split: if_splits)
qed

lemma distinct_unseen: "distinct (map tx_key (unseen sn xs))"
proof (induction xs arbitrary: sn)
  case Nil
  then show ?case by simp
next
  case (Cons x xs)
  then show ?case by (auto dest: unseen_fresh)
qed

lemma scan_links_unseen:
  "length recs < mx \<Longrightarrow>
   scan_links ex mx links (recs, sn) =
     (recs @ take (mx - length recs) (unseen sn (List.map_filter ex links)),
      sn \<union> tx_key ` set (take (mx - length recs) (unseen sn (List.map_filter ex links))))"
proof (induction links arbitrary: recs sn)
  case Nil
  then show ?case by (simp add: List.map_filter_simps)
next
  case (Cons link links)
  show ?case
  proof (cases "ex link")
    case None
    with Cons show ?thesis by (simp add: List.map_filter_simps)
  next
    case (Some t)
    show ?thesis
    proof (cases "tx_key t \<in> sn")
      case True
      with Some Cons show ?thesis by (simp add: List.map_filter_simps)
    next
      case False
      show ?thesis
      proof (cases "mx \<le> Suc (length recs)")
        case True
        with Cons.prems have "mx - length recs = Suc 0" by simp
        with True Some False show ?thesis by (simp add: List.map_filter_simps)
      next
        case False
        then have lt: "length (recs @ [t]) < mx" by simp
        from False have "mx - length recs = Suc (mx - length (recs @ [t]))" by simp
        with Cons.IH [OF lt, of "insert (tx_key t) sn"] Some \<open>tx_key t \<notin> sn\<close> False
        show ?thesis by (simp add: List.map_filter_simps)
      qed
    qed
  qed
qed

lemma encountered_Suc:
  "encountered ex doc (Suc n) = encountered ex doc n @ List.map_filter ex (doc n)"
  by (simp add: encountered_def)

lemma unseen_encountered_Suc:
  "unseen {} (encountered ex doc (Suc n)) =
   unseen {} (encountered ex doc n)
   @ unseen (tx_key ` set (unseen {} (encountered ex doc n))) (List.map_filter ex (doc n))"
  using keys_unseen [of "{}" "encountered ex doc n"]
  by (simp add: encountered_Suc unseen_append)

text \<open>The invariant of the loop: the accepted records are the first \<open>mx\<close> of the records
  met so far, each at its first occurrence, and \<open>seen\<close> holds their keys.\<close>

definition collect_inv ::
  "('l \<Rightarrow> tx option) \<Rightarrow> (nat \<Rightarrow> 'l list) \<Rightarrow> nat \<Rightarrow> collector \<Rightarrow> bool" where
  "collect_inv ex doc mx c =
     (records c = take mx (unseen {} (encountered ex doc (polls c)))
      \<and> seen c = tx_key ` set (records c)
      \<and> lastCount c = length (records c))"

lemma collect_inv_full:
  assumes "collect_inv ex doc mx c" and "length (records c) < mx"
  shows "unseen {} (encountered ex doc (polls c)) = records c"
proof -
  from assms have "length (take mx (unseen {} (encountered ex doc (polls c)))) < mx"
    by (simp add: collect_inv_def)
  then have "length (unseen {} (encountered ex doc (polls c))) < mx"
    by (simp add: min_def split: if_splits)
  with assms(1) show ?thesis by (simp add: collect_inv_def)
qed

lemma collect_inv_init: "collect_inv ex doc mx collect_init"
  by (simp add: collect_inv_def collect_init_def encountered_def)

lemma collect_inv_step:
  assumes inv: "collect_inv ex doc mx c" and lt: "length (records c) < mx"
  shows "collect_inv ex doc mx (collect_step ex doc mx c)"
proof -
  let ?new = "unseen (seen c) (List.map_filter ex (doc (polls c)))"
  have full: "unseen {} (encountered ex doc (polls c)) = records c"
    by (rule collect_inv_full [OF inv lt])
  from inv have sn: "seen c = tx_key ` set (records c)"
    by (simp add: collect_inv_def)
  have recs: "records (collect_step ex doc mx c) = records c @ take (mx - length (records c)) ?new"
    by (simp add: collect_step_records scan_links_unseen [OF lt])
  have seen': "seen (collect_step ex doc mx c)
             = seen c \<union> tx_key ` set (take (mx - length (records c)) ?new)"
    by (simp add: collect_step_seen scan_links_unseen [OF lt])
  have "unseen {} (encountered ex doc (Suc (polls c))) = records c @ ?new"
    by (simp add: unseen_encountered_Suc full sn)
  then have "take mx (unseen {} (encountered ex doc (polls (collect_step ex doc mx c))))
           = records (collect_step ex doc mx c)"
    using lt by (simp add: collect_step_polls recs)
  moreover have "seen (collect_step ex doc mx c) = tx_key ` set (records (collect_step ex doc mx c))"
    by (simp add: seen' recs sn image_Un)
  ultimately show ?thesis
    by (simp add: collect_inv_def collect_step_lastCount)
qed

lemma collect_loop_stop:
  "mx \<le> length (records c) \<or> STALL_LIMIT \<le> stallCount c \<Longrightarrow> collect_loop ex doc mx c = c"
  by (subst collect_loop.simps) auto

lemma collect_loop_exit:
  "length (records c) < mx \<Longrightarrow> stallCount c < STALL_LIMIT \<Longrightarrow>
   mx \<le> length (records (collect_step ex doc mx c))
     \<or> STALL_LIMIT \<le> stallCount (collect_step ex doc mx c) \<Longrightarrow>
   collect_loop ex doc mx c = collect_step ex doc mx c"
  by (subst collect_loop.simps) (auto simp: Let_def)

lemma collect_loop_continue:
  "length (records c) < mx \<Longrightarrow> stallCount c < STALL_LIMIT \<Longrightarrow>
   length (records (collect_step ex doc mx c)) < mx \<Longrightarrow>
   stallCount (collect_step ex doc mx c) < STALL_LIMIT \<Longrightarrow>
   collect_loop ex doc mx c = collect_loop ex doc mx (collect_step ex doc mx c)"
  by (subst collect_loop.simps) (auto simp: Let_def)

lemma collect_loop_cases:
  obtains (stop) "mx \<le> length (records c) \<or> STALL_LIMIT \<le> stallCount c"
      "collect_loop ex doc mx c = c"
  | (exit) "length (records c) < mx" "stallCount c < STALL_LIMIT"
      "mx \<le> length (records (collect_step ex doc mx c))
         \<or> STALL_LIMIT \<le> stallCount (collect_step ex doc mx c)"
      "collect_loop ex doc mx c = collect_step ex doc mx c"
  | (continue) "length (records c) < mx" "stallCount c < STALL_LIMIT"
      "length (records (collect_step ex doc mx c)) < mx"
      "stallCount (collect_step ex doc mx c) < STALL_LIMIT"
      "collect_loop ex doc mx c = collect_loop ex doc mx (collect_step ex doc mx c)"
  using collect_loop_stop [of mx c ex doc] collect_loop_exit [of c mx ex doc]
    collect_loop_continue [of c mx ex doc]
  by (meson not_le)

lemma collect_loop_inv:
  "collect_inv ex doc mx c \<Longrightarrow> collect_inv ex doc mx (collect_loop ex doc mx c)"
proof (induction ex doc mx c rule: collect_loop.induct)
  case (1 ex doc mx c)
  show ?case
  proof (cases rule: collect_loop_cases [of mx c ex doc])
    case stop
    with "1.prems" show ?thesis by simp
  next
    case exit
    with collect_inv_step [OF "1.prems"] show ?thesis by simp
  next
    case continue
    with "1.IH" [OF _ refl _ collect_inv_step [OF "1.prems"]] show ?thesis by simp
  qed
qed

lemma collect_run_inv: "collect_inv ex doc mx (collect_run ex doc mx)"
  unfolding collect_run_def by (rule collect_loop_inv [OF collect_inv_init])

lemma collect_run_records:
  "records (collect_run ex doc mx)
   = take mx (unseen {} (encountered ex doc (polls (collect_run ex doc mx))))"
  using collect_run_inv [of ex doc mx] by (simp add: collect_inv_def)

lemma tx_key_composite:
  "tx_key t = (\<lambda>(d, c, on, a). d @ [BAR] @ c @ [BAR] @ on @ [BAR] @ a)
                (date t, cardDetails t, orderNumber t, totalAmount t)"
  by (simp add: tx_key_def)

lemma distinct_composite:
  assumes "distinct (map tx_key ts)"
  shows "distinct (map (\<lambda>t. (date t, cardDetails t, orderNumber t, totalAmount t)) ts)"
proof -
  have "map tx_key ts = map (\<lambda>(d, c, on, a). d @ [BAR] @ c @ [BAR] @ on @ [BAR] @ a)
                          (map (\<lambda>t. (date t, cardDetails t, orderNumber t, totalAmount t)) ts)"
    by (simp add: tx_key_def)
  with assms show ?thesis
    by (simp only: distinct_map)
qed

text \<open>
  C1. Whatever the page shows at each query, and however often the same entries come
  back in later queries, no two records of the sequence the collector returns agree in
  all of \<open>date\<close>, \<open>cardDetails\<close>, \<open>orderNumber\<close> and \<open>totalAmount\<close>.
\<close>

theorem collect_no_duplicates:
  "distinct (map (\<lambda>t. (date t, cardDetails t, orderNumber t, totalAmount t))
                 (collectTransactions extract doc maxTransactions))"
proof -
  have "distinct (map tx_key (unseen {} (encountered extract doc
                     (polls (collect_run extract doc maxTransactions)))))"
    by (rule distinct_unseen)
  then have "distinct (map tx_key (collectTransactions extract doc maxTransactions))"
    by (simp add: collectTransactions_def collect_run_records distinct_take take_map [symmetric]
        del: take_map)
  then show ?thesis by (rule distinct_composite)
qed

theorem collect_no_duplicates_witness:
  "map orderNumber (collectTransactions numbered_tx overlapping_doc 5)
     = [js ''0'', js ''1'', js ''2'', js ''3'', js ''4'']
   \<and> distinct (map (\<lambda>t. (date t, cardDetails t, orderNumber t, totalAmount t))
                    (collectTransactions numbered_tx overlapping_doc 5))"
proof -
  have "map orderNumber (collectTransactions numbered_tx overlapping_doc 5)
     = [js ''0'', js ''1'', js ''2'', js ''3'', js ''4'']"
    by code_simp
  then show ?thesis
    using collect_no_duplicates [of numbered_tx overlapping_doc 5] by (rule conjI)
qed



lemma collect_loop_prev:
  assumes "collect_inv ex doc mx c"
    and "0 < polls c \<longrightarrow> length (unseen {} (encountered ex doc (polls c - 1))) < mx"
  shows "0 < polls (collect_loop ex doc mx c) \<longrightarrow>
         length (unseen {} (encountered ex doc (polls (collect_loop ex doc mx c) - 1))) < mx"
  using assms
proof (induction ex doc mx c rule: collect_loop.induct)
  case (1 ex doc mx c)
  have step: "length (records c) < mx \<Longrightarrow>
              length (unseen {} (encountered ex doc (polls (collect_step ex doc mx c) - 1))) < mx"
    using collect_inv_full [OF "1.prems"(1)] by (simp add: collect_step_polls)
  show ?case
  proof (cases rule: collect_loop_cases [of mx c ex doc])
    case stop
    with "1.prems" show ?thesis by simp
  next
    case exit
    with step show ?thesis by simp
  next
    case continue
    with "1.IH" [OF _ refl _ collect_inv_step [OF "1.prems"(1)]] step show ?thesis by simp
  qed
qed

text \<open>
  C9. The collector returns the first \<open>maxTransactions\<close> of the records that its queries
  of the page met, in the order in which they were met, each at its first occurrence;
  so it returns at most \<open>maxTransactions\<close> records. When the accepted count has reached
  \<open>maxTransactions\<close> the result has exactly that many records, and the collector began
  no query once the count had reached \<open>maxTransactions\<close>: before its last query, fewer
  were met.
\<close>

theorem collect_at_most_max:
  "collectTransactions extract doc maxTransactions =
     take maxTransactions
       (unseen {} (encountered extract doc (polls (collect_run extract doc maxTransactions))))
   \<and> length (collectTransactions extract doc maxTransactions) \<le> maxTransactions
   \<and> (maxTransactions \<le> length (records (collect_run extract doc maxTransactions)) \<longrightarrow>
        length (collectTransactions extract doc maxTransactions) = maxTransactions)
   \<and> (0 < polls (collect_run extract doc maxTransactions) \<longrightarrow>
        length (unseen {} (encountered extract doc
                  (polls (collect_run extract doc maxTransactions) - 1))) < maxTransactions)"
proof (intro conjI impI)
  show "collectTransactions extract doc maxTransactions =
     take maxTransactions
       (unseen {} (encountered extract doc (polls (collect_run extract doc maxTransactions))))"
    by (simp add: collectTransactions_def collect_run_records)
  show "length (collectTransactions extract doc maxTransactions) \<le> maxTransactions"
    by (simp add: collectTransactions_def)
next
  assume "maxTransactions \<le> length (records (collect_run extract doc maxTransactions))"
  then show "length (collectTransactions extract doc maxTransactions) = maxTransactions"
    by (simp add: collectTransactions_def)
next
  assume "0 < polls (collect_run extract doc maxTransactions)"
  with collect_loop_prev [OF collect_inv_init, of "extract" doc maxTransactions]
  show "length (unseen {} (encountered extract doc
                  (polls (collect_run extract doc maxTransactions) - 1))) < maxTransactions"
    by (simp add: collect_run_def collect_init_def)
qed

theorem collect_at_most_max_witness:
  "map orderNumber (collectTransactions numbered_tx overlapping_doc 3)
     = [js ''0'', js ''1'', js ''2'']
   \<and> polls (collect_run numbered_tx overlapping_doc 3) = 2
   \<and> length (collectTransactions numbered_tx overlapping_doc 3) = 3
   \<and> length (unseen {} (encountered numbered_tx overlapping_doc 1)) < 3"
proof -
  note t = collect_at_most_max [of numbered_tx overlapping_doc 3]
  have p: "polls (collect_run numbered_tx overlapping_doc 3) = 2"
    by code_simp
  have r: "3 \<le> length (records (collect_run numbered_tx overlapping_doc 3))"
    by code_simp
  have "map orderNumber (collectTransactions numbered_tx overlapping_doc 3)
     = [js ''0'', js ''1'', js ''2'']"
    unfolding t [THEN conjunct1] p by code_simp
  moreover have "length (collectTransactions numbered_tx overlapping_doc 3) = 3"
    using t r by blast
  moreover have "length (unseen {} (encountered numbered_tx overlapping_doc 1)) < 3"
    using t p by simp
  ultimately show ?thesis using p by blast
qed


subsection \<open>Stalling\<close>

lemma collect_loop_terminal:
  "mx \<le> length (records (collect_loop ex doc mx c))
   \<or> STALL_LIMIT \<le> stallCount (collect_loop ex doc mx c)"
proof (induction ex doc mx c rule: collect_loop.induct)
  case (1 ex doc mx c)
  show ?case
  proof (cases rule: collect_loop_cases [of mx c ex doc])
    case stop
    then show ?thesis by simp
  next
    case exit
    then show ?thesis by simp
  next
    case continue
    with "1.IH" [OF _ refl] show ?thesis by simp
  qed
qed

lemma collect_loop_polls_bound:
  "lastCount c = length (records c) \<Longrightarrow>
   polls (collect_loop ex doc mx c)
   \<le> polls c + ((mx - length (records c)) * STALL_LIMIT - stallCount c)"
proof (induction ex doc mx c rule: collect_loop.induct)
  case (1 ex doc mx c)
  let ?c' = "collect_step ex doc mx c"
  have grow: "length (records c) \<le> length (records ?c')"
    by (rule collect_step_grows)
  have stall: "stallCount ?c' = (if length (records ?c') = length (records c)
                                 then stallCount c + 1 else 0)"
    using "1.prems" by (simp add: collect_step_stallCount)
  show ?case
  proof (cases rule: collect_loop_cases [of mx c ex doc])
    case stop
    then show ?thesis by simp
  next
    case exit
    then have "1 \<le> (mx - length (records c)) * STALL_LIMIT - stallCount c"
      by (simp add: STALL_LIMIT_def)
    with exit show ?thesis by (simp add: collect_step_polls)
  next
    case continue
    from "1.IH" [OF _ refl _ collect_step_lastCount] continue
    have ih: "polls (collect_loop ex doc mx c)
              \<le> polls c + 1 + ((mx - length (records ?c')) * STALL_LIMIT - stallCount ?c')"
      by (simp add: collect_step_polls)
    show ?thesis
    proof (cases "length (records ?c') = length (records c)")
      case True
      with ih stall continue show ?thesis by (simp add: STALL_LIMIT_def)
    next
      case False
      with grow have "length (records c) < length (records ?c')" by simp
      with ih stall continue show ?thesis by (simp add: STALL_LIMIT_def)
    qed
  qed
qed

lemma collect_step_nothing_new:
  assumes "length (records c) < mx" and "lastCount c = length (records c)"
    and "unseen (seen c) (List.map_filter ex (doc (polls c))) = []"
  shows "collect_step ex doc mx c = c\<lparr>stallCount := stallCount c + 1, polls := polls c + 1\<rparr>"
  using assms by (simp add: collect_step_def scan_links_unseen)

lemma collect_loop_stalls:
  assumes "STALL_LIMIT - stallCount c = k"
    and "length (records c) < mx" and "stallCount c < STALL_LIMIT"
    and "lastCount c = length (records c)"
    and "\<forall>n. polls c \<le> n \<and> n < polls c + k \<longrightarrow>
             unseen (seen c) (List.map_filter ex (doc n)) = []"
  shows "collect_loop ex doc mx c = c\<lparr>stallCount := STALL_LIMIT, polls := polls c + k\<rparr>"
  using assms
proof (induction k arbitrary: c)
  case 0
  then show ?case by simp
next
  case (Suc k)
  let ?c' = "c\<lparr>stallCount := stallCount c + 1, polls := polls c + 1\<rparr>"
  from Suc.prems have step: "collect_step ex doc mx c = ?c'"
    by (intro collect_step_nothing_new) auto
  show ?case
  proof (cases "k = 0")
    case True
    with Suc.prems have "stallCount c + 1 = STALL_LIMIT" by simp
    with Suc.prems True show ?thesis
      by (simp add: collect_loop_exit step)
  next
    case False
    with Suc.prems have lt: "stallCount ?c' < STALL_LIMIT" by simp
    have "collect_loop ex doc mx c = collect_loop ex doc mx ?c'"
      using collect_loop_continue [of c mx ex doc] Suc.prems lt by (simp add: step)
    also have "\<dots> = ?c'\<lparr>stallCount := STALL_LIMIT, polls := polls ?c' + k\<rparr>"
      using Suc.prems lt by (intro Suc.IH) auto
    finally show ?thesis by simp
  qed
qed


lemma unseen_encountered_mono:
  "n \<le> m \<Longrightarrow> \<exists>zs. unseen {} (encountered ex doc m) = unseen {} (encountered ex doc n) @ zs"
proof (induction m)
  case 0
  then show ?case by simp
next
  case (Suc m)
  show ?case
  proof (cases "n = Suc m")
    case True
    then show ?thesis by simp
  next
    case False
    with Suc.prems have "n \<le> m" by simp
    with Suc.IH obtain zs
      where "unseen {} (encountered ex doc m) = unseen {} (encountered ex doc n) @ zs"
      by blast
    then show ?thesis
      by (simp add: unseen_encountered_Suc)
  qed
qed

lemma window_flat:
  assumes "unseen {} (encountered ex doc (p + k)) = unseen {} (encountered ex doc p)"
    and "p \<le> n" and "n \<le> p + k"
  shows "unseen {} (encountered ex doc n) = unseen {} (encountered ex doc p)"
proof -
  from unseen_encountered_mono [OF assms(2)] obtain zs
    where 1: "unseen {} (encountered ex doc n) = unseen {} (encountered ex doc p) @ zs"
    by blast
  from unseen_encountered_mono [OF assms(3)] obtain zs'
    where 2: "unseen {} (encountered ex doc (p + k)) = unseen {} (encountered ex doc n) @ zs'"
    by blast
  have l1: "length (unseen {} (encountered ex doc n))
            = length (unseen {} (encountered ex doc p)) + length zs"
    by (subst 1) simp
  have l2: "length (unseen {} (encountered ex doc (p + k)))
            = length (unseen {} (encountered ex doc n)) + length zs'"
    by (subst 2) simp
  have l3: "length (unseen {} (encountered ex doc (p + k)))
            = length (unseen {} (encountered ex doc p))"
    by (subst assms(1)) simp
  from l1 l2 l3 have "length zs = 0" by linarith
  then have "zs = []" by simp
  with 1 show ?thesis by simp
qed

lemma window_nothing_new:
  assumes "unseen {} (encountered ex doc (p + k)) = unseen {} (encountered ex doc p)"
    and "p \<le> n" and "n < p + k"
  shows "unseen (tx_key ` set (unseen {} (encountered ex doc p))) (List.map_filter ex (doc n)) = []"
proof -
  from assms(3) have le: "n \<le> p + k" and le': "Suc n \<le> p + k" by simp_all
  from assms(2) have le'': "p \<le> Suc n" by simp
  have a: "unseen {} (encountered ex doc n) = unseen {} (encountered ex doc p)"
    by (rule window_flat [OF assms(1) assms(2) le])
  have b: "unseen {} (encountered ex doc (Suc n)) = unseen {} (encountered ex doc p)"
    by (rule window_flat [OF assms(1) le'' le'])
  have "unseen {} (encountered ex doc (Suc n)) =
        unseen {} (encountered ex doc n)
        @ unseen (tx_key ` set (unseen {} (encountered ex doc n))) (List.map_filter ex (doc n))"
    by (rule unseen_encountered_Suc)
  then have "unseen {} (encountered ex doc p) =
        unseen {} (encountered ex doc p)
        @ unseen (tx_key ` set (unseen {} (encountered ex doc p))) (List.map_filter ex (doc n))"
    unfolding b a .
  then show ?thesis
    by (simp only: self_append_conv)
qed

lemma collect_loop_window:
  assumes "unseen {} (encountered ex doc (p + STALL_LIMIT)) = unseen {} (encountered ex doc p)"
    and "collect_inv ex doc mx c" and "polls c \<le> p"
  shows "polls (collect_loop ex doc mx c) \<le> p + STALL_LIMIT"
  using assms
proof (induction ex doc mx c rule: collect_loop.induct)
  case (1 ex doc mx c)
  show ?case
  proof (cases rule: collect_loop_cases [of mx c ex doc])
    case stop
    with "1.prems" show ?thesis by simp
  next
    case exit
    with "1.prems" show ?thesis by (simp add: collect_step_polls)
  next
    case continue
    show ?thesis
    proof (cases "polls c < p")
      case True
      with "1.IH" [OF _ refl _ "1.prems"(1) collect_inv_step [OF "1.prems"(2)]] continue
      show ?thesis by (simp add: collect_step_polls)
    next
      case False
      with "1.prems" have p: "polls c = p" by simp
      from "1.prems"(2) continue(1)
      have full: "unseen {} (encountered ex doc p) = records c"
        unfolding p [symmetric] by (rule collect_inv_full)
      from "1.prems"(2) have sn: "seen c = tx_key ` set (records c)"
        and lc: "lastCount c = length (records c)"
        by (simp_all add: collect_inv_def)
      have "\<forall>n. polls c \<le> n \<and> n < polls c + (STALL_LIMIT - stallCount c) \<longrightarrow>
                unseen (seen c) (List.map_filter ex (doc n)) = []"
      proof (intro allI impI)
        fix n assume "polls c \<le> n \<and> n < polls c + (STALL_LIMIT - stallCount c)"
        then have "p \<le> n" "n < p + STALL_LIMIT" using p by auto
        from window_nothing_new [OF "1.prems"(1) this] show
          "unseen (seen c) (List.map_filter ex (doc n)) = []"
          by (simp add: sn full)
      qed
      from collect_loop_stalls [OF refl continue(1) continue(2) lc this]
      show ?thesis by (simp add: p)
    qed
  qed
qed

text \<open>
  C2, as the code has it. A stall is a query that yields no record with a new key; the
  number of entries the page renders plays no part. On every page the loop ends, in
  \<open>Complete\<close> or in \<open>Stalled\<close>, after at most \<open>STALL_LIMIT * maxTransactions\<close>
  queries. And when \<open>STALL_LIMIT\<close> consecutive queries of the page, those numbered
  \<open>p, ..., p + STALL_LIMIT - 1\<close>, meet no record with a new key, the loop ends with
  the last of them at the latest, and it ends in \<open>Stalled\<close> when the page showed fewer
  than \<open>maxTransactions\<close> distinct records before them.
\<close>

theorem collect_terminates_on_stall:
  "phase_of maxTransactions (collect_run extract doc maxTransactions) \<noteq> Scanning
   \<and> polls (collect_run extract doc maxTransactions) \<le> STALL_LIMIT * maxTransactions
   \<and> (unseen {} (encountered extract doc (p + STALL_LIMIT)) = unseen {} (encountered extract doc p)
        \<longrightarrow> polls (collect_run extract doc maxTransactions) \<le> p + STALL_LIMIT
          \<and> (length (unseen {} (encountered extract doc p)) < maxTransactions
               \<longrightarrow> phase_of maxTransactions (collect_run extract doc maxTransactions) = Stalled))"
proof (intro conjI impI)
  let ?f = "collect_run extract doc maxTransactions"
  show terminal: "phase_of maxTransactions ?f \<noteq> Scanning"
    using collect_loop_terminal [of maxTransactions "extract" doc collect_init]
    by (auto simp: phase_of_def collect_run_def)
  show "polls ?f \<le> STALL_LIMIT * maxTransactions"
    using collect_loop_polls_bound [of collect_init "extract" doc maxTransactions]
    by (simp add: collect_run_def collect_init_def mult.commute)
  assume w: "unseen {} (encountered extract doc (p + STALL_LIMIT))
             = unseen {} (encountered extract doc p)"
  show bound: "polls ?f \<le> p + STALL_LIMIT"
    unfolding collect_run_def
    by (rule collect_loop_window [OF w collect_inv_init]) (simp add: collect_init_def)
  assume few: "length (unseen {} (encountered extract doc p)) < maxTransactions"
  have "length (unseen {} (encountered extract doc (polls ?f)))
        \<le> length (unseen {} (encountered extract doc p))"
  proof (cases "polls ?f \<le> p")
    case True
    from unseen_encountered_mono [OF this, of "extract" doc] show ?thesis by auto
  next
    case False
    with bound window_flat [OF w, of "polls ?f"] show ?thesis by simp
  qed
  with few have "length (records ?f) < maxTransactions"
    by (simp add: collect_run_records)
  with terminal show "phase_of maxTransactions ?f = Stalled"
    by (simp add: phase_of_def split: if_splits)
qed

theorem collect_terminates_on_stall_witness:
  "unseen {} (encountered numbered_tx static_doc (1 + STALL_LIMIT))
     = unseen {} (encountered numbered_tx static_doc 1)
   \<and> polls (collect_run numbered_tx static_doc 200) \<le> 1 + STALL_LIMIT
   \<and> phase_of 200 (collect_run numbered_tx static_doc 200) = Stalled"
proof -
  have w: "unseen {} (encountered numbered_tx static_doc (1 + STALL_LIMIT))
     = unseen {} (encountered numbered_tx static_doc 1)"
    by code_simp
  have few: "length (unseen {} (encountered numbered_tx static_doc 1)) < 200"
    by code_simp
  from collect_terminates_on_stall [of 200 numbered_tx static_doc 1] w few
  show ?thesis by blast
qed


text \<open>The claim as it is worded, on the number of entries the page renders, fails: the
  rotating page renders one entry at every query, and the collector, asked for 10
  records, ends in \<open>Complete\<close> after 10 queries without a single stall.\<close>

theorem collect_stall_counterexample:
  "\<not> (\<forall>(extract :: nat \<Rightarrow> tx option) doc maxTransactions.
        (\<forall>n. length (doc (Suc n)) \<le> length (doc n)) \<longrightarrow>
        phase_of maxTransactions (collect_run extract doc maxTransactions) = Stalled
        \<and> polls (collect_run extract doc maxTransactions) \<le> STALL_LIMIT)"
proof
  assume a: "\<forall>(extract :: nat \<Rightarrow> tx option) doc maxTransactions.
        (\<forall>n. length (doc (Suc n)) \<le> length (doc n)) \<longrightarrow>
        phase_of maxTransactions (collect_run extract doc maxTransactions) = Stalled
        \<and> polls (collect_run extract doc maxTransactions) \<le> STALL_LIMIT"
  have "\<forall>n. length (rotating_doc (Suc n)) \<le> length (rotating_doc n)"
    by (simp add: rotating_doc_def)
  with a have "phase_of 10 (collect_run numbered_tx rotating_doc 10) = Stalled"
    by blast
  moreover have "phase_of 10 (collect_run numbered_tx rotating_doc 10) = Complete"
    by code_simp
  ultimately show False by simp
qed


section \<open>Properties of normalizeSpace\<close>

lemma is_space_SPACE: "is_space SPACE"
  by (simp add: is_space_def)

lemma digit_not_space: "is_digit c \<Longrightarrow> \<not> is_space c"
  by (auto simp: is_digit_def is_space_def)

lemma alpha_not_space: "is_alpha c \<Longrightarrow> \<not> is_space c"
  by (auto simp: is_alpha_def is_space_def)

lemma alpha_not_digit: "is_alpha c \<Longrightarrow> \<not> is_digit c"
  by (auto simp: is_alpha_def is_digit_def)

lemma collapse_ws_nonspace:
  "\<forall>c \<in> set xs. \<not> is_space c \<Longrightarrow> collapse_ws (xs @ ys) = xs @ collapse_ws ys"
  by (induction xs) auto

lemma collapse_ws_nonspace_only:
  "\<forall>c \<in> set xs. \<not> is_space c \<Longrightarrow> collapse_ws xs = xs"
  using collapse_ws_nonspace [of xs "[]"] by simp

lemma collapse_ws_spaces:
  "ws \<noteq> [] \<Longrightarrow> \<forall>c \<in> set ws. is_space c \<Longrightarrow>
   collapse_ws (ws @ ys) = SPACE # collapse_ws (dropWhile is_space ys)"
  by (cases ws) (auto simp: dropWhile_append)

lemma filter_dropWhile_space:
  "filter (\<lambda>c. \<not> is_space c) (dropWhile is_space s) = filter (\<lambda>c. \<not> is_space c) s"
  by (induction s) auto

lemma filter_collapse_ws:
  "filter (\<lambda>c. \<not> is_space c) (collapse_ws s) = filter (\<lambda>c. \<not> is_space c) s"
  by (induction s rule: collapse_ws.induct) (auto simp: is_space_SPACE filter_dropWhile_space)

lemma filter_trim:
  "filter (\<lambda>c. \<not> is_space c) (trim s) = filter (\<lambda>c. \<not> is_space c) s"
proof -
  have "filter (\<lambda>c. \<not> is_space c) (trim s)
      = rev (filter (\<lambda>c. \<not> is_space c) (dropWhile is_space (rev (dropWhile is_space s))))"
    by (simp add: trim_def rev_filter)
  also have "\<dots> = filter (\<lambda>c. \<not> is_space c) (dropWhile is_space s)"
    by (simp only: filter_dropWhile_space rev_filter [symmetric] rev_rev_ident)
  finally show ?thesis by (simp only: filter_dropWhile_space)
qed

lemma filter_normalizeSpace:
  "filter (\<lambda>c. \<not> is_space c) (normalizeSpace (Some s)) = filter (\<lambda>c. \<not> is_space c) s"
  by (simp add: normalizeSpace_def filter_trim filter_collapse_ws)

lemma digits_normalizeSpace:
  "(\<exists>c \<in> set (normalizeSpace (Some s)). is_digit c) = (\<exists>c \<in> set s. is_digit c)"
proof -
  have "{c \<in> set (normalizeSpace (Some s)). \<not> is_space c} = {c \<in> set s. \<not> is_space c}"
    using arg_cong [OF filter_normalizeSpace [of s], of set] by simp
  then show ?thesis
    using digit_not_space by blast
qed

section \<open>Properties of parseAmountValue\<close>

lemma amount_digits_Some:
  "amount_digits r = Some v \<Longrightarrow> r \<noteq> [] \<and> is_digit (hd r) \<and> v \<noteq> [] \<and> hd v = hd r"
  by (cases r) (auto simp: amount_digits_def Let_def split: if_splits)

lemma amount_digits_digit: "is_digit d \<Longrightarrow> amount_digits (d # ds) \<noteq> None"
  by (simp add: amount_digits_def Let_def)

lemma set_strip_marker: "set (strip_marker r) \<subseteq> set r"
  by (cases r) (auto simp: strip_marker_def dest: in_set_dropD)

lemma amount_at_Some:
  assumes "amount_at t = Some (sg, v)"
  shows "v \<noteq> [] \<and> is_digit (hd v) \<and> hd v \<in> set t \<and> (sg = [] \<or> sg = [PLUS] \<or> sg = [MINUS])"
proof -
  obtain sign r1 where s: "(case t of [] \<Rightarrow> ([], [])
                        | c # cs \<Rightarrow> if c = PLUS \<or> c = MINUS then ([c], cs) else ([], t)) = (sign, r1)"
    by (cases "(case t of [] \<Rightarrow> ([], [])
                        | c # cs \<Rightarrow> if c = PLUS \<or> c = MINUS then ([c], cs) else ([], t))") auto
  then have sub: "set r1 \<subseteq> set t" and sgn: "sign = [] \<or> sign = [PLUS] \<or> sign = [MINUS]"
    by (cases t; auto split: if_splits)+
  let ?r4 = "dropWhile is_space (strip_marker (dropWhile is_space r1))"
  from assms s have v: "amount_digits ?r4 = Some v" and sg: "sg = sign"
    by (auto simp: amount_at_def Let_def)
  from amount_digits_Some [OF v] have "v \<noteq> []" "is_digit (hd v)" "hd v \<in> set ?r4"
    by auto
  moreover have "set ?r4 \<subseteq> set t"
    using sub set_strip_marker [of "dropWhile is_space r1"]
      set_dropWhileD [of _ is_space "strip_marker (dropWhile is_space r1)"]
      set_dropWhileD [of _ is_space r1]
    by blast
  ultimately show ?thesis using sgn sg by auto
qed

lemma amount_at_no_digit: "\<forall>c \<in> set t. \<not> is_digit c \<Longrightarrow> amount_at t = None"
proof (rule ccontr)
  assume nd: "\<forall>c \<in> set t. \<not> is_digit c" and "amount_at t \<noteq> None"
  then obtain sg v where "amount_at t = Some (sg, v)" by auto
  from amount_at_Some [OF this] nd show False by blast
qed

lemma amount_match_no_digit: "\<forall>c \<in> set t. \<not> is_digit c \<Longrightarrow> amount_match t = None"
  by (induction t) (simp_all add: amount_at_no_digit)

lemma strip_marker_digit: "is_digit d \<Longrightarrow> strip_marker (d # ds) = d # ds"
  by (auto simp: strip_marker_def is_digit_def js_def to_upper_def
      split: if_splits list.splits)

lemma amount_at_digit: "is_digit d \<Longrightarrow> amount_at (d # ds) \<noteq> None"
proof -
  assume d: "is_digit d"
  then have "d \<noteq> PLUS" "d \<noteq> MINUS" "\<not> is_space d"
    by (auto simp: is_digit_def is_space_def)
  with d show ?thesis
    by (simp add: amount_at_def strip_marker_digit amount_digits_digit)
qed

lemma amount_match_digit: "\<exists>c \<in> set t. is_digit c \<Longrightarrow> amount_match t \<noteq> None"
proof (induction t)
  case Nil
  then show ?case by simp
next
  case (Cons c cs)
  show ?case
  proof (cases "amount_at (c # cs)")
    case (Some m)
    then show ?thesis by simp
  next
    case None
    with amount_at_digit [of c cs] have "\<not> is_digit c" by auto
    with Cons.prems have "\<exists>c \<in> set cs. is_digit c" by auto
    with Cons.IH None show ?thesis by simp
  qed
qed

lemma amount_match_Some:
  "amount_match t = Some (sg, v) \<Longrightarrow>
   v \<noteq> [] \<and> is_digit (hd v) \<and> (sg = [] \<or> sg = [PLUS] \<or> sg = [MINUS])"
proof (induction t)
  case Nil
  then show ?case using amount_at_Some [of "[]" sg v] by simp
next
  case (Cons c cs)
  then show ?case
    using amount_at_Some [of "c # cs" sg v] by (auto split: option.splits)
qed

lemmas amount_eval =
  amount_at_def strip_marker_def amount_digits_def is_digit_def is_group_char_def
  to_upper_def is_space_def

text \<open>
  C10. For every input string that holds a decimal digit, parseAmountValue returns a
  non-empty result, an optional sign followed by a text that begins with a digit: the
  pattern asks for no currency marker and is tried at every position.
\<close>

theorem parseAmountValue_any_digit:
  assumes "\<exists>c \<in> set rawText. is_digit c"
  shows "parseAmountValue (Some rawText) \<noteq> []
       \<and> (\<exists>sign v. parseAmountValue (Some rawText) = sign @ v
              \<and> (sign = [] \<or> sign = [PLUS] \<or> sign = [MINUS])
              \<and> v \<noteq> [] \<and> is_digit (hd v))"
proof -
  let ?text = "normalizeSpace (Some rawText)"
  from assms have "\<exists>c \<in> set ?text. is_digit c"
    by (simp only: digits_normalizeSpace)
  then have "amount_match ?text \<noteq> None"
    by (rule amount_match_digit)
  then obtain sg v where m: "amount_match ?text = Some (sg, v)"
    by (cases "amount_match ?text") auto
  from amount_match_Some [OF m] have vne: "v \<noteq> []" and vd: "is_digit (hd v)"
    and sg: "sg = [] \<or> sg = [PLUS] \<or> sg = [MINUS]"
    by blast+
  from vne obtain d ds where v: "v = d # ds" by (cases v) auto
  with vd have d: "is_digit d" by simp
  then have "d \<noteq> COMMA" by (auto simp: is_digit_def)
  then have f: "filter (\<lambda>c. c \<noteq> COMMA) v = d # filter (\<lambda>c. c \<noteq> COMMA) ds"
    by (simp add: v)
  have r: "parseAmountValue (Some rawText) = sg @ d # filter (\<lambda>c. c \<noteq> COMMA) ds"
    unfolding parseAmountValue_def m f [symmetric] by simp
  have "parseAmountValue (Some rawText) \<noteq> []"
    unfolding r by simp
  moreover have "\<exists>sign w. parseAmountValue (Some rawText) = sign @ w
              \<and> (sign = [] \<or> sign = [PLUS] \<or> sign = [MINUS])
              \<and> w \<noteq> [] \<and> is_digit (hd w)"
  proof (intro exI conjI)
    show "parseAmountValue (Some rawText) = sg @ (d # filter (\<lambda>c. c \<noteq> COMMA) ds)"
      by (rule r)
    show "sg = [] \<or> sg = [PLUS] \<or> sg = [MINUS]" by (rule sg)
    show "d # filter (\<lambda>c. c \<noteq> COMMA) ds \<noteq> []" by simp
    show "is_digit (hd (d # filter (\<lambda>c. c \<noteq> COMMA) ds))" using d by simp
  qed
  ultimately show ?thesis by (rule conjI)
qed

theorem parseAmountValue_any_digit_witness:
  "parseAmountValue (Some (js ''Order 123-4567890 shipped'')) = js ''123''"
proof -
  have "\<exists>c \<in> set (js ''Order 123-4567890 shipped''). is_digit c"
    by (simp add: js_def is_digit_def)
  from parseAmountValue_any_digit [OF this]
  have "parseAmountValue (Some (js ''Order 123-4567890 shipped'')) \<noteq> []" by blast
  moreover have "normalizeSpace (Some (js ''Order 123-4567890 shipped''))
                 = js ''Order 123-4567890 shipped''"
    by (simp add: normalizeSpace_def trim_def js_def is_space_def)
  moreover have "amount_match (js ''Order 123-4567890 shipped'') = Some ([], js ''123'')"
    by (simp add: amount_eval js_def)
  ultimately show ?thesis
    by (simp add: parseAmountValue_def js_def)
qed

subsection \<open>Texts of the shape of an amount\<close>

lemma to_upper_cases: "to_upper c = c \<or> (0x61 \<le> unat c \<and> unat c \<le> 0x7A)"
  by (simp add: to_upper_def)

lemma code_char:
  assumes "to_upper c \<in> {0x55, 0x53, 0x44, 0x47, 0x42, 0x50, 0x45, 0x52}"
  shows "\<not> is_space c \<and> \<not> is_digit c \<and> c \<noteq> PLUS \<and> c \<noteq> MINUS
         \<and> c \<noteq> DOLLAR \<and> c \<noteq> POUND \<and> c \<noteq> EURO"
proof (cases "0x61 \<le> unat c \<and> unat c \<le> 0x7A")
  case True
  then show ?thesis
    by (auto simp: is_space_def is_digit_def)
next
  case False
  with to_upper_cases [of c] assms have "c \<in> {0x55, 0x53, 0x44, 0x47, 0x42, 0x50, 0x45, 0x52}"
    by simp
  then show ?thesis
    by (auto simp: is_space_def is_digit_def)
qed

lemma marker_code:
  assumes "map to_upper mk \<in> {js ''USD'', js ''GBP'', js ''EUR''}"
  shows "length mk = 3 \<and> (\<forall>c \<in> set mk. to_upper c \<in> {0x55, 0x53, 0x44, 0x47, 0x42, 0x50, 0x45, 0x52})"
proof -
  from assms have "length (map to_upper mk) = 3"
    by (auto simp: js_def)
  then have l: "length mk = 3" by simp
  then obtain a b c where mk: "mk = [a, b, c]"
    by (auto simp: length_Suc_conv numeral_3_eq_3)
  with assms show ?thesis
    by (auto simp: js_def)
qed

lemma marker_chars:
  assumes "is_marker mk" and "c \<in> set mk"
  shows "\<not> is_space c \<and> \<not> is_digit c \<and> c \<noteq> PLUS \<and> c \<noteq> MINUS"
proof (cases "map to_upper mk \<in> {js ''USD'', js ''GBP'', js ''EUR''}")
  case True
  from marker_code [OF True] assms(2) code_char [of c] show ?thesis by blast
next
  case False
  with assms have "c = DOLLAR \<or> c = POUND \<or> c = EURO"
    by (auto simp: is_marker_def)
  then show ?thesis
    by (auto simp: is_space_def is_digit_def)
qed

lemma strip_marker_marker:
  assumes "is_marker mk" and "mk \<noteq> []"
  shows "strip_marker (mk @ r) = r"
proof (cases "map to_upper mk \<in> {js ''USD'', js ''GBP'', js ''EUR''}")
  case True
  from marker_code [OF True] have l: "length mk = 3"
    and ch: "\<forall>c \<in> set mk. to_upper c \<in> {0x55, 0x53, 0x44, 0x47, 0x42, 0x50, 0x45, 0x52}"
    by auto
  from l obtain a rest where mk: "mk = a # rest" by (cases mk) auto
  with ch code_char [of a] have a: "a \<noteq> DOLLAR" "a \<noteq> POUND" "a \<noteq> EURO" by auto
  from l have tk: "take 3 (mk @ r) = mk" and dr: "drop 3 (mk @ r) = r" and le: "3 \<le> length (mk @ r)"
    by simp_all
  have "strip_marker (a # rest @ r) =
          (if length (a # rest @ r) \<ge> 3
              \<and> map to_upper (take 3 (a # rest @ r)) \<in> {js ''USD'', js ''GBP'', js ''EUR''}
           then drop 3 (a # rest @ r) else a # rest @ r)"
    using a by (simp only: strip_marker_def list.case if_False simp_thms)
  also have "a # rest @ r = mk @ r" by (simp add: mk)
  finally show ?thesis
    using True by (simp only: tk dr le if_True simp_thms)
next
  case False
  with assms have "mk = [DOLLAR] \<or> mk = [POUND] \<or> mk = [EURO]"
    by (auto simp: is_marker_def)
  then show ?thesis
    by (auto simp: strip_marker_def)
qed

lemma amount_digits_group:
  assumes "is_digit d" and "\<forall>c \<in> set ds. is_group_char c" and "is_fraction fr"
  shows "amount_digits (d # ds @ fr) = Some (d # ds @ fr)"
proof -
  have nd: "\<not> is_group_char DOT"
    by (simp add: is_group_char_def is_digit_def)
  from assms(3) have fr: "fr = [] \<or> (\<exists>a b. fr = [DOT, a, b] \<and> is_digit a \<and> is_digit b)"
    by (auto simp: is_fraction_def split: list.splits)
  with assms(2) nd have tw: "takeWhile is_group_char (ds @ fr) = ds"
    and dw: "dropWhile is_group_char (ds @ fr) = fr"
    by auto
  from fr have "(case fr of
                   p # a # b # _ \<Rightarrow> if p = DOT \<and> is_digit a \<and> is_digit b then [p, a, b] else []
                 | _ \<Rightarrow> []) = fr"
    by auto
  with assms(1) tw dw show ?thesis
    by (simp add: amount_digits_def Let_def del: takeWhile_append dropWhile_append)
qed

lemma amount_at_form:
  assumes "is_sign sg" and "is_marker mk"
    and "is_digit d" and "\<forall>c \<in> set ds. is_group_char c" and "is_fraction fr"
    and "amount_form sg mk (d # ds @ fr) t"
  shows "amount_at t = Some (sg, d # ds @ fr)"
proof -
  let ?v = "d # ds @ fr"
  from assms(6) obtain s1 s2 where s1: "\<forall>c \<in> set s1. is_space c"
    and s2: "\<forall>c \<in> set s2. is_space c" and t: "t = sg @ s1 @ mk @ s2 @ ?v"
    by (auto simp: amount_form_def)
  let ?rest = "s1 @ mk @ s2 @ ?v"
  from assms(3) have d: "\<not> is_space d" "d \<noteq> PLUS" "d \<noteq> MINUS"
    by (auto simp: is_digit_def is_space_def)
  have sp: "is_space a \<Longrightarrow> a \<noteq> PLUS \<and> a \<noteq> MINUS" for a
    by (auto simp: is_space_def)
  have hd_rest: "hd ?rest \<noteq> PLUS \<and> hd ?rest \<noteq> MINUS"
  proof (cases s1)
    case (Cons a s)
    with s1 sp [of a] show ?thesis by simp
  next
    case n1: Nil
    show ?thesis
    proof (cases mk)
      case (Cons a m)
      with marker_chars [OF assms(2), of a] n1 show ?thesis by simp
    next
      case n2: Nil
      show ?thesis
      proof (cases s2)
        case (Cons a s)
        with s2 sp [of a] n1 n2 show ?thesis by simp
      next
        case Nil
        with n1 n2 d show ?thesis by simp
      qed
    qed
  qed
  obtain a r where r: "?rest = a # r" by (cases ?rest) auto
  have sign: "(case t of [] \<Rightarrow> ([], [])
               | c # cs \<Rightarrow> if c = PLUS \<or> c = MINUS then ([c], cs) else ([], t)) = (sg, ?rest)"
  proof (cases "sg = []")
    case True
    from hd_rest r have "a \<noteq> PLUS" "a \<noteq> MINUS" by auto
    with True r t show ?thesis by simp
  next
    case False
    with assms(1) have "sg = [PLUS] \<or> sg = [MINUS]" by (simp add: is_sign_def)
    with t show ?thesis by auto
  qed
  have r4: "dropWhile is_space (strip_marker (dropWhile is_space ?rest)) = ?v"
  proof (cases "mk = []")
    case True
    with s1 s2 d have "dropWhile is_space ?rest = ?v" by simp
    with assms(3) d show ?thesis by (simp add: strip_marker_digit)
  next
    case False
    then obtain b m where mk: "mk = b # m" by (cases mk) auto
    with marker_chars [OF assms(2), of b] have "\<not> is_space b" by simp
    with s1 mk have "dropWhile is_space ?rest = mk @ s2 @ ?v" by simp
    with strip_marker_marker [OF assms(2) False] s2 d show ?thesis by simp
  qed
  show ?thesis
    unfolding amount_at_def sign
    by (simp add: r4 amount_digits_group [OF assms(3,4,5)])
qed

lemma amount_match_at: "amount_at t = Some m \<Longrightarrow> amount_match t = Some m"
  by (cases t) simp_all


lemma collapse_ws_token:
  assumes "\<forall>c \<in> set w. is_space c" and "a \<noteq> []" and "\<forall>c \<in> set a. \<not> is_space c"
  shows "\<exists>s. (\<forall>c \<in> set s. is_space c) \<and> collapse_ws (w @ a @ r) = s @ a @ collapse_ws r"
proof (cases "w = []")
  case True
  with assms(3) have "collapse_ws (w @ a @ r) = [] @ a @ collapse_ws r"
    by (simp add: collapse_ws_nonspace)
  then show ?thesis by (intro exI [of _ "[]"]) simp
next
  case False
  from assms(2,3) have "dropWhile is_space (a @ r) = a @ r"
    by (cases a) auto
  with False assms(1,3) have "collapse_ws (w @ a @ r) = [SPACE] @ a @ collapse_ws r"
    by (simp add: collapse_ws_spaces collapse_ws_nonspace)
  then show ?thesis by (intro exI [of _ "[SPACE]"]) (simp add: is_space_SPACE)
qed

lemma amount_form_collapse_ws:
  assumes "\<forall>c \<in> set sg. \<not> is_space c" and "\<forall>c \<in> set mk. \<not> is_space c"
    and "v \<noteq> []" and "\<forall>c \<in> set v. \<not> is_space c"
    and "amount_form sg mk v t"
  shows "amount_form sg mk v (collapse_ws t)"
proof -
  from assms(5) obtain s1 s2 where s1: "\<forall>c \<in> set s1. is_space c"
    and s2: "\<forall>c \<in> set s2. is_space c" and t: "t = sg @ s1 @ mk @ s2 @ v"
    by (auto simp: amount_form_def)
  have sg: "collapse_ws t = sg @ collapse_ws (s1 @ mk @ s2 @ v)"
    unfolding t by (rule collapse_ws_nonspace [OF assms(1)])
  show ?thesis
  proof (cases "mk = []")
    case True
    have "\<forall>c \<in> set (s1 @ s2). is_space c" using s1 s2 by auto
    from collapse_ws_token [OF this assms(3,4), of "[]"] obtain s
      where s: "\<forall>c \<in> set s. is_space c" and c: "collapse_ws ((s1 @ s2) @ v @ []) = s @ v @ collapse_ws []"
      by blast
    from c True sg have "collapse_ws t = sg @ s @ mk @ [] @ v" by simp
    with s show ?thesis unfolding amount_form_def by (intro exI [of _ s] exI [of _ "[]"]) simp
  next
    case False
    from collapse_ws_token [OF s1 False assms(2), of "s2 @ v"] obtain s
      where s: "\<forall>c \<in> set s. is_space c"
        and c: "collapse_ws (s1 @ mk @ s2 @ v) = s @ mk @ collapse_ws (s2 @ v)"
      by blast
    from collapse_ws_token [OF s2 assms(3,4), of "[]"] obtain s'
      where s': "\<forall>c \<in> set s'. is_space c" and c': "collapse_ws (s2 @ v @ []) = s' @ v @ collapse_ws []"
      by blast
    from c c' sg have "collapse_ws t = sg @ s @ mk @ s' @ v" by simp
    with s s' show ?thesis unfolding amount_form_def by (intro exI [of _ s] exI [of _ s']) simp
  qed
qed

lemma amount_form_dropWhile:
  assumes "\<forall>c \<in> set sg. \<not> is_space c" and "\<forall>c \<in> set mk. \<not> is_space c"
    and "v \<noteq> []" and "\<forall>c \<in> set v. \<not> is_space c"
    and "amount_form sg mk v t"
  shows "amount_form sg mk v (dropWhile is_space t)"
proof -
  from assms(5) obtain s1 s2 where s1: "\<forall>c \<in> set s1. is_space c"
    and s2: "\<forall>c \<in> set s2. is_space c" and t: "t = sg @ s1 @ mk @ s2 @ v"
    by (auto simp: amount_form_def)
  from assms(3,4) have v: "dropWhile is_space v = v" by (cases v) auto
  show ?thesis
  proof (cases "sg = []")
    case False
    with assms(1) have "dropWhile is_space t = t" unfolding t by (cases sg) auto
    with assms(5) show ?thesis by simp
  next
    case True
    show ?thesis
    proof (cases "mk = []")
      case True
      with \<open>sg = []\<close> s1 s2 v have "dropWhile is_space t = sg @ [] @ mk @ [] @ v"
        unfolding t by simp
      then show ?thesis unfolding amount_form_def
        by (intro exI [of _ "[]"]) simp
    next
      case False
      with assms(2) have "dropWhile is_space (mk @ s2 @ v) = mk @ s2 @ v" by (cases mk) auto
      with \<open>sg = []\<close> s1 have "dropWhile is_space t = sg @ [] @ mk @ s2 @ v"
        unfolding t by simp
      with s2 show ?thesis unfolding amount_form_def
        by (intro exI [of _ "[]"] exI [of _ s2]) simp
    qed
  qed
qed

lemma amount_form_rev_dropWhile:
  assumes "v \<noteq> []" and "\<forall>c \<in> set v. \<not> is_space c" and "amount_form sg mk v t"
  shows "rev (dropWhile is_space (rev t)) = t"
proof -
  from assms(3) obtain p where t: "t = p @ v"
    by (auto simp: amount_form_def)
  from assms(1) obtain b l where rv: "rev v = b # l"
    by (cases "rev v") auto
  then have "b \<in> set v" by (metis list.set_intros(1) set_rev)
  with assms(2) have "\<not> is_space b" by simp
  then have "dropWhile is_space (rev t) = rev t"
    unfolding t by (simp add: rv)
  then show ?thesis by simp
qed

lemma amount_form_normalizeSpace:
  assumes "\<forall>c \<in> set sg. \<not> is_space c" and "\<forall>c \<in> set mk. \<not> is_space c"
    and "v \<noteq> []" and "\<forall>c \<in> set v. \<not> is_space c"
    and "amount_form sg mk v t"
  shows "amount_form sg mk v (normalizeSpace (Some t))"
proof -
  note f1 = amount_form_collapse_ws [OF assms]
  note f2 = amount_form_dropWhile [OF assms(1-4) f1]
  from amount_form_rev_dropWhile [OF assms(3,4) f2] f2 show ?thesis
    by (simp add: normalizeSpace_def trim_def)
qed

lemma sign_chars: "is_sign sg \<Longrightarrow> \<forall>c \<in> set sg. \<not> is_space c \<and> c \<noteq> COMMA"
  by (auto simp: is_sign_def is_space_def)

lemma fraction_chars: "is_fraction fr \<Longrightarrow> \<forall>c \<in> set fr. \<not> is_space c \<and> c \<noteq> COMMA"
  by (auto simp: is_fraction_def is_space_def is_digit_def split: list.splits)

lemma group_chars: "is_group_char c \<Longrightarrow> \<not> is_space c"
  by (auto simp: is_group_char_def is_space_def is_digit_def)

text \<open>
  C7, as the code has it. The currency markers are those the pattern lists: the dollar,
  pound and euro signs and the codes USD, GBP and EUR, a code in either case. For every
  text made of an optional sign, such a marker or none, a digit followed by digits and
  commas, and an optional fraction of exactly two digits, with any white space before
  and after the marker, parseAmountValue returns the sign followed by the digits
  without their commas and by the fraction. For every text no part of which has that
  shape, it returns the empty string.
\<close>

theorem parseAmountValue_shape:
  "(amount_shape sg w1 mk w2 d ds fr \<longrightarrow>
      parseAmountValue (Some (sg @ w1 @ mk @ w2 @ d # ds @ fr))
      = sg @ filter (\<lambda>c. c \<noteq> COMMA) (d # ds) @ fr)
   \<and> ((\<forall>pre sg w1 mk w2 d ds fr post.
          amount_shape sg w1 mk w2 d ds fr \<longrightarrow>
          rawText \<noteq> pre @ sg @ w1 @ mk @ w2 @ d # ds @ fr @ post)
        \<longrightarrow> parseAmountValue (Some rawText) = [])"
proof (intro conjI impI)
  assume sh: "amount_shape sg w1 mk w2 d ds fr"
  then have sg: "is_sign sg" and w1: "\<forall>c \<in> set w1. is_space c" and mk: "is_marker mk"
    and w2: "\<forall>c \<in> set w2. is_space c" and d: "is_digit d"
    and ds: "\<forall>c \<in> set ds. is_group_char c" and fr: "is_fraction fr"
    by (simp_all add: amount_shape_def)
  let ?v = "d # ds @ fr"
  have v: "\<forall>c \<in> set ?v. \<not> is_space c"
    using d ds fr digit_not_space group_chars fraction_chars by auto
  have form: "amount_form sg mk ?v (sg @ w1 @ mk @ w2 @ ?v)"
    using w1 w2 unfolding amount_form_def by blast
  have "amount_form sg mk ?v (normalizeSpace (Some (sg @ w1 @ mk @ w2 @ ?v)))"
    using sign_chars [OF sg] marker_chars [OF mk] v form
    by (intro amount_form_normalizeSpace) auto
  from amount_match_at [OF amount_at_form [OF sg mk d ds fr this]]
  have "parseAmountValue (Some (sg @ w1 @ mk @ w2 @ ?v)) = sg @ filter (\<lambda>c. c \<noteq> COMMA) ?v"
    by (simp add: parseAmountValue_def)
  also have "filter (\<lambda>c. c \<noteq> COMMA) ?v = filter (\<lambda>c. c \<noteq> COMMA) (d # ds) @ fr"
    using fraction_chars [OF fr] by (simp add: filter_id_conv)
  finally show "parseAmountValue (Some (sg @ w1 @ mk @ w2 @ d # ds @ fr))
      = sg @ filter (\<lambda>c. c \<noteq> COMMA) (d # ds) @ fr" .
next
  assume none: "\<forall>pre sg w1 mk w2 d ds fr post.
          amount_shape sg w1 mk w2 d ds fr \<longrightarrow>
          rawText \<noteq> pre @ sg @ w1 @ mk @ w2 @ d # ds @ fr @ post"
  have "\<forall>c \<in> set rawText. \<not> is_digit c"
  proof (intro ballI notI)
    fix c assume "c \<in> set rawText" and c: "is_digit c"
    then obtain pre post where "rawText = pre @ c # post"
      by (auto simp: in_set_conv_decomp)
    then have "rawText = pre @ [] @ [] @ [] @ [] @ c # [] @ [] @ post" by simp
    moreover from c have "amount_shape [] [] [] [] c [] []"
      by (simp add: amount_shape_def is_sign_def is_marker_def is_fraction_def)
    ultimately show False using none by blast
  qed
  then have "\<forall>c \<in> set (normalizeSpace (Some rawText)). \<not> is_digit c"
    using digits_normalizeSpace [of rawText] by blast
  from amount_match_no_digit [OF this] show "parseAmountValue (Some rawText) = []"
    by (simp add: parseAmountValue_def)
qed


theorem parseAmountValue_shape_witness:
  "parseAmountValue (Some (js ''-$1,234.56'')) = js ''-1234.56''
   \<and> parseAmountValue (Some (js ''usd  9.00'')) = js ''9.00''
   \<and> parseAmountValue (Some (js ''free'')) = []"
proof -
  have s1: "amount_shape (js ''-'') [] (js ''$'') [] 0x31 (js '',234'') (js ''.56'')"
    by (simp add: amount_shape_def is_sign_def is_marker_def is_fraction_def is_digit_def
        is_group_char_def js_def)
  have s2: "amount_shape [] [] (js ''usd'') (js ''  '') 0x39 [] (js ''.00'')"
    by (simp add: amount_shape_def is_sign_def is_marker_def is_fraction_def is_digit_def
        is_space_def to_upper_def js_def)
  have s3: "\<forall>pre sg w1 mk w2 d ds fr post.
          amount_shape sg w1 mk w2 d ds fr \<longrightarrow>
          js ''free'' \<noteq> pre @ sg @ w1 @ mk @ w2 @ d # ds @ fr @ post"
  proof (intro allI impI notI)
    fix pre sg w1 mk w2 :: jsstring and d :: jschar and ds fr post :: jsstring
    assume "amount_shape sg w1 mk w2 d ds fr"
      and eq: "js ''free'' = pre @ sg @ w1 @ mk @ w2 @ d # ds @ fr @ post"
    then have "is_digit d" by (simp add: amount_shape_def)
    moreover from arg_cong [OF eq, of set] have "d \<in> set (js ''free'')" by simp
    ultimately show False by (auto simp: js_def is_digit_def)
  qed
  have "parseAmountValue (Some (js ''-$1,234.56'')) = js ''-1234.56''"
    using parseAmountValue_shape [THEN conjunct1, THEN mp, OF s1]
    by (simp add: js_def)
  moreover have "parseAmountValue (Some (js ''usd  9.00'')) = js ''9.00''"
    using parseAmountValue_shape [THEN conjunct1, THEN mp, OF s2]
    by (simp add: js_def)
  moreover have "parseAmountValue (Some (js ''free'')) = []"
    using parseAmountValue_shape [THEN conjunct2, THEN mp, OF s3] .
  ultimately show ?thesis by blast
qed

text \<open>The claim as it is worded, for any currency symbol or three-letter code, fails:
  before a marker that the pattern does not list, the sign is not part of the match.
  The inputs are a minus sign, the code CAD, a space and 9.00; and a minus sign, the
  yen sign and 1,234.\<close>

theorem parseAmountValue_counterexample:
  "is_sign [MINUS] \<and> is_currency_code (js ''CAD'') \<and> is_fraction (js ''.00'')
   \<and> parseAmountValue (Some ([MINUS] @ js ''CAD'' @ [SPACE] @ js ''9'' @ js ''.00'')) = js ''9.00''
   \<and> js ''9.00'' \<noteq> [MINUS] @ js ''9'' @ js ''.00''
   \<and> parseAmountValue (Some ([MINUS, 0xA5] @ js ''1,234'')) = js ''1234''
   \<and> js ''1234'' \<noteq> [MINUS] @ js ''1234''"
proof -
  have s: "is_sign [MINUS]" "is_currency_code (js ''CAD'')" "is_fraction (js ''.00'')"
    by (simp_all add: is_sign_def is_currency_code_def is_fraction_def is_alpha_def
        is_digit_def js_def)
  have n1: "normalizeSpace (Some ([MINUS] @ js ''CAD'' @ [SPACE] @ js ''9'' @ js ''.00''))
            = js ''-CAD 9.00''"
    and n2: "normalizeSpace (Some ([MINUS, 0xA5] @ js ''1,234'')) = [MINUS, 0xA5] @ js ''1,234''"
    by (simp_all add: normalizeSpace_def trim_def js_def is_space_def)
  have m1: "amount_match (js ''-CAD 9.00'') = Some ([], js ''9.00'')"
    by (simp add: amount_eval js_def)
  have m2: "amount_match ([MINUS, 0xA5] @ js ''1,234'') = Some ([], js ''1,234'')"
    by (simp add: amount_eval js_def)
  have 1: "parseAmountValue (Some ([MINUS] @ js ''CAD'' @ [SPACE] @ js ''9'' @ js ''.00'')) = js ''9.00''"
    unfolding parseAmountValue_def n1 m1 by (simp add: js_def)
  have 2: "parseAmountValue (Some ([MINUS, 0xA5] @ js ''1,234'')) = js ''1234''"
    unfolding parseAmountValue_def n2 m2 by (simp add: js_def)
  have 3: "js ''9.00'' \<noteq> [MINUS] @ js ''9'' @ js ''.00''" "js ''1234'' \<noteq> [MINUS] @ js ''1234''"
    by (simp_all add: js_def)
  from s 1 2 3 show ?thesis by blast
qed
section \<open>Properties of parseDateToISO\<close>

subsection \<open>The day\<close>

lemma digit_char_value: "is_digit a \<Longrightarrow> digit_char (digit_value a) = a"
  by (simp add: digit_char_def digit_value_def is_digit_def)

lemma digit_value_less: "is_digit a \<Longrightarrow> digit_value a < 10"
  by (auto simp: digit_value_def is_digit_def)

lemma digit_value_zero: "is_digit a \<Longrightarrow> digit_value a = 0 \<Longrightarrow> a = ZERO"
proof -
  assume "is_digit a" "digit_value a = 0"
  then have "unat a = 0x30" by (simp add: digit_value_def is_digit_def)
  then have "of_nat (unat a) = (of_nat 0x30 :: jschar)" by simp
  then show ?thesis by simp
qed

lemma dec_string_digit: "n < 10 \<Longrightarrow> dec_string n = [digit_char n]"
  by (simp add: dec_string.simps)

lemma dec_string_two:
  "10 \<le> n \<Longrightarrow> n < 100 \<Longrightarrow> dec_string n = [digit_char (n div 10), digit_char (n mod 10)]"
  by (subst dec_string.simps) (simp add: dec_string_digit)

lemma day_padded:
  assumes "length d = 1 \<or> length d = 2" and "\<forall>c \<in> set d. is_digit c"
  shows "padStart 2 ZERO (dec_string (Number_of_digits d)) = (if length d = 1 then ZERO # d else d)"
proof (cases "length d = 1")
  case True
  then obtain a where d: "d = [a]" by (cases d) auto
  with assms(2) have a: "is_digit a" by simp
  from digit_value_less [OF a] have "dec_string (digit_value a) = [a]"
    by (simp add: dec_string_digit digit_char_value [OF a])
  then show ?thesis
    by (simp add: d Number_of_digits_def padStart_def)
next
  case False
  with assms(1) have "length d = 2" by simp
  then obtain a b where d: "d = [a, b]"
    by (auto simp: length_Suc_conv numeral_2_eq_2)
  with assms(2) have a: "is_digit a" and b: "is_digit b" by simp_all
  have n: "Number_of_digits d = 10 * digit_value a + digit_value b"
    by (simp add: d Number_of_digits_def)
  show ?thesis
  proof (cases "digit_value a = 0")
    case True
    with n digit_value_less [OF b] have "dec_string (Number_of_digits d) = [b]"
      by (simp add: dec_string_digit digit_char_value [OF b])
    with digit_value_zero [OF a True] show ?thesis
      by (simp add: d padStart_def)
  next
    case False
    with n digit_value_less [OF a] digit_value_less [OF b]
    have "10 \<le> Number_of_digits d" "Number_of_digits d < 100"
      "Number_of_digits d div 10 = digit_value a" "Number_of_digits d mod 10 = digit_value b"
      by simp_all
    then have "dec_string (Number_of_digits d) = [a, b]"
      by (simp add: dec_string_two digit_char_value [OF a] digit_char_value [OF b])
    then show ?thesis
      by (simp add: d padStart_def)
  qed
qed

subsection \<open>The pattern\<close>

lemma match_date_exact:
  assumes "date_shape d m y"
  shows "match_date (d @ [SPACE] @ m @ [SPACE] @ y) = Some (d, m, y)"
proof -
  from assms have ld: "length d = 1 \<or> length d = 2" and dd: "\<forall>c \<in> set d. is_digit c"
    and lm: "length m = 3" and mm: "\<forall>c \<in> set m. is_alpha c"
    and ly: "length y = 4" and yy: "\<forall>c \<in> set y. is_digit c"
    by (simp_all add: date_shape_def)
  let ?t = "d @ [SPACE] @ m @ [SPACE] @ y"
  have nsp: "\<not> is_digit SPACE" by (simp add: is_digit_def)
  have g1: "takeWhile is_digit (take 2 ?t) = d"
  proof (cases "length d = 1")
    case True
    then obtain a where "d = [a]" by (cases d) auto
    with dd nsp show ?thesis by simp
  next
    case False
    with ld have "length d = 2" by simp
    with dd show ?thesis by simp
  qed
  from lm obtain a m' where m: "m = a # m'" by (cases m) auto
  with mm alpha_not_space [of a] have ma: "\<not> is_space a" by simp
  from ly obtain b y' where y: "y = b # y'" by (cases y) auto
  with yy digit_not_space [of b] have yb: "\<not> is_space b" by simp
  have r1: "drop (length d) ?t = SPACE # m @ [SPACE] @ y" by simp
  have r2: "dropWhile is_space (SPACE # m @ [SPACE] @ y) = m @ [SPACE] @ y"
    using ma by (simp add: is_space_SPACE m)
  have w1: "takeWhile is_space (SPACE # m @ [SPACE] @ y) \<noteq> []"
    by (simp add: is_space_SPACE)
  have g2: "take 3 (m @ [SPACE] @ y) = m" and r3: "drop 3 (m @ [SPACE] @ y) = SPACE # y"
    using lm by simp_all
  have r4: "dropWhile is_space (SPACE # y) = y"
    using yb by (simp add: is_space_SPACE y)
  have w2: "takeWhile is_space (SPACE # y) \<noteq> []"
    by (simp add: is_space_SPACE)
  from ld have dne: "d \<noteq> []" by auto
  show ?thesis
    unfolding match_date_def g1 r1 Let_def r2 g2 r3 r4
    using dne w1 w2 lm mm ly yy by simp
qed

lemma match_date_Some:
  assumes "match_date t = Some (g1, g2, g3)"
  shows "\<exists>w1 w2. t = g1 @ w1 @ g2 @ w2 @ g3 \<and> date_shape g1 g2 g3
           \<and> w1 \<noteq> [] \<and> (\<forall>c \<in> set w1. is_space c)
           \<and> w2 \<noteq> [] \<and> (\<forall>c \<in> set w2. is_space c)"
proof -
  let ?g1 = "takeWhile is_digit (take 2 t)"
  let ?r1 = "drop (length ?g1) t"
  let ?r2 = "dropWhile is_space ?r1"
  let ?r3 = "drop 3 ?r2"
  let ?r4 = "dropWhile is_space ?r3"
  from assms have c: "?g1 \<noteq> []" "takeWhile is_space ?r1 \<noteq> []"
    "length (take 3 ?r2) = 3" "\<forall>c \<in> set (take 3 ?r2). is_alpha c"
    "takeWhile is_space ?r3 \<noteq> []" "length ?r4 = 4" "\<forall>c \<in> set ?r4. is_digit c"
    and g: "g1 = ?g1" "g2 = take 3 ?r2" "g3 = ?r4"
    by (auto simp: match_date_def Let_def split: if_splits)
  have "take (length ?g1) (take 2 t) = ?g1"
    by (metis takeWhile_eq_take)
  moreover have "length ?g1 \<le> 2"
    using length_takeWhile_le [of is_digit "take 2 t"] by simp
  ultimately have "take (length ?g1) t = ?g1"
    by (simp add: min_def)
  then have t1: "t = ?g1 @ ?r1"
    by (metis append_take_drop_id)
  have t2: "?r1 = takeWhile is_space ?r1 @ ?r2" by simp
  have t3: "?r2 = take 3 ?r2 @ ?r3" by simp
  have t4: "?r3 = takeWhile is_space ?r3 @ ?r4" by simp
  have "t = ?g1 @ takeWhile is_space ?r1 @ take 3 ?r2 @ takeWhile is_space ?r3 @ ?r4"
    using t1 t2 t3 t4 by metis
  moreover have "length ?g1 = 1 \<or> length ?g1 = 2"
  proof -
    from c(1) have "0 < length ?g1" by simp
    with \<open>length ?g1 \<le> 2\<close> show ?thesis by linarith
  qed
  moreover have "\<forall>c \<in> set ?g1. is_digit c"
    by (auto dest: set_takeWhileD)
  moreover have "\<forall>c \<in> set (takeWhile is_space ?r1). is_space c"
    "\<forall>c \<in> set (takeWhile is_space ?r3). is_space c"
    by (auto dest: set_takeWhileD)
  ultimately show ?thesis
    using c g unfolding date_shape_def by blast
qed


subsection \<open>Normalized texts\<close>

lemma collapse_ws_space_chars:
  "c \<in> set (collapse_ws s) \<Longrightarrow> is_space c \<Longrightarrow> c = SPACE"
  by (induction s rule: collapse_ws.induct) (auto split: if_splits)

lemma single_spaced_Cons:
  "single_spaced (a # xs) = ((xs = [] \<or> \<not> (is_space a \<and> is_space (hd xs))) \<and> single_spaced xs)"
  by (cases xs) auto

lemma collapse_ws_hd:
  "s \<noteq> [] \<Longrightarrow> \<not> is_space (hd s) \<Longrightarrow> collapse_ws s \<noteq> [] \<and> hd (collapse_ws s) = hd s"
  by (cases s) auto

lemma single_spaced_collapse_ws: "single_spaced (collapse_ws s)"
proof (induction s rule: collapse_ws.induct)
  case 1
  then show ?case by simp
next
  case (2 c cs)
  show ?case
  proof (cases "is_space c")
    case True
    let ?d = "dropWhile is_space cs"
    have "collapse_ws ?d = [] \<or> \<not> is_space (hd (collapse_ws ?d))"
    proof (cases "?d = []")
      case True
      then have "collapse_ws ?d = collapse_ws []" by (rule arg_cong)
      then show ?thesis by simp
    next
      case False
      then have "\<not> is_space (hd ?d)" by (rule hd_dropWhile)
      with False collapse_ws_hd [of ?d] show ?thesis by simp
    qed
    moreover from True 2 have "single_spaced (collapse_ws ?d)" by simp
    ultimately have "single_spaced (SPACE # collapse_ws ?d)"
      unfolding single_spaced_Cons by blast
    with True show ?thesis by simp
  next
    case False
    with 2 show ?thesis by (simp add: single_spaced_Cons)
  qed
qed

lemma single_spaced_append:
  "single_spaced (xs @ ys) \<Longrightarrow> single_spaced xs \<and> single_spaced ys"
proof (induction xs)
  case Nil
  then show ?case by simp
next
  case (Cons a xs)
  then show ?case
    by (cases xs) (auto simp: single_spaced_Cons)
qed

lemma single_spaced_run:
  assumes "single_spaced (xs @ w @ ys)" and "\<forall>c \<in> set w. is_space c"
  shows "length w \<le> 1"
proof -
  from assms(1) have "single_spaced w"
    using single_spaced_append [of xs "w @ ys"] single_spaced_append [of w ys] by simp
  with assms(2) show ?thesis
    by (cases w rule: single_spaced.cases) auto
qed

lemma trim_infix: "\<exists>p q. s = p @ trim s @ q"
proof -
  let ?u = "dropWhile is_space s"
  have "rev ?u = takeWhile is_space (rev ?u) @ dropWhile is_space (rev ?u)" by simp
  then have "rev (rev ?u) = rev (takeWhile is_space (rev ?u) @ dropWhile is_space (rev ?u))"
    by (rule arg_cong)
  then have "?u = trim s @ rev (takeWhile is_space (rev ?u))"
    by (simp only: rev_append rev_rev_ident trim_def)
  moreover have "s = takeWhile is_space s @ ?u" by simp
  ultimately show ?thesis by metis
qed

lemma normalizeSpace_single_spaced:
  "single_spaced (normalizeSpace raw)
   \<and> (\<forall>c \<in> set (normalizeSpace raw). is_space c \<longrightarrow> c = SPACE)"
proof -
  let ?c = "collapse_ws (case raw of None \<Rightarrow> [] | Some s \<Rightarrow> s)"
  from trim_infix [of ?c] obtain p q where c: "?c = p @ normalizeSpace raw @ q"
    by (auto simp: normalizeSpace_def)
  have "single_spaced ?c" by (rule single_spaced_collapse_ws)
  then have "single_spaced (normalizeSpace raw)"
    unfolding c using single_spaced_append [of p "normalizeSpace raw @ q"]
      single_spaced_append [of "normalizeSpace raw" q] by simp
  moreover have "\<forall>c \<in> set (normalizeSpace raw). is_space c \<longrightarrow> c = SPACE"
  proof (intro ballI impI)
    fix x assume "x \<in> set (normalizeSpace raw)" "is_space x"
    then have "x \<in> set ?c" by (subst c) simp
    then show "x = SPACE" using \<open>is_space x\<close> by (rule collapse_ws_space_chars)
  qed
  ultimately show ?thesis by simp
qed

lemma normalized_run:
  assumes "normalizeSpace raw = xs @ w @ ys" and "w \<noteq> []" and "\<forall>c \<in> set w. is_space c"
  shows "w = [SPACE]"
proof -
  from normalizeSpace_single_spaced [of raw] assms(1)
  have ss: "single_spaced (xs @ w @ ys)"
    and sp: "\<forall>c \<in> set (xs @ w @ ys). is_space c \<longrightarrow> c = SPACE"
    by simp_all
  from single_spaced_run [OF ss assms(3)] assms(2) obtain c where w: "w = [c]"
    by (cases w) auto
  with assms(3) sp show ?thesis by simp
qed

lemma normalizeSpace_date:
  assumes "date_shape d m y"
  shows "normalizeSpace (Some (d @ [SPACE] @ m @ [SPACE] @ y)) = d @ [SPACE] @ m @ [SPACE] @ y"
proof -
  from assms have dd: "\<forall>c \<in> set d. \<not> is_space c" and mm: "\<forall>c \<in> set m. \<not> is_space c"
    and yy: "\<forall>c \<in> set y. \<not> is_space c"
    and dne: "d \<noteq> []" and mne: "m \<noteq> []" and yne: "y \<noteq> []"
    by (auto simp: date_shape_def digit_not_space alpha_not_space)
  let ?t = "d @ [SPACE] @ m @ [SPACE] @ y"
  from mne mm have dm: "dropWhile is_space (m @ SPACE # y) = m @ SPACE # y"
    by (cases m) auto
  from yne yy have dy: "dropWhile is_space y = y"
    by (cases y) auto
  have c: "collapse_ws ?t = ?t"
    using collapse_ws_nonspace [OF dd, of "[SPACE] @ m @ [SPACE] @ y"]
      collapse_ws_spaces [of "[SPACE]" "m @ [SPACE] @ y"]
      collapse_ws_nonspace [OF mm, of "[SPACE] @ y"]
      collapse_ws_spaces [of "[SPACE]" y]
      collapse_ws_nonspace_only [OF yy]
    by (simp add: is_space_SPACE dm dy)
  from dne dd have l: "dropWhile is_space ?t = ?t"
    by (cases d) auto
  from yne obtain b l where rv: "rev y = b # l" by (cases "rev y") auto
  then have "b \<in> set y" by (metis list.set_intros(1) set_rev)
  with yy have "\<not> is_space b" by simp
  then have r: "dropWhile is_space (rev ?t) = rev ?t"
    by (simp add: rv)
  show ?thesis
    by (simp only: normalizeSpace_def option.case c trim_def l r rev_rev_ident)
qed

lemma date_text_chars:
  assumes "is_date_text s"
  shows "s \<noteq> [] \<and> is_digit (hd s) \<and> (\<forall>c \<in> set s. is_space c \<longrightarrow> c = SPACE)"
proof -
  from assms obtain d m y where sh: "date_shape d m y" and s: "s = d @ [SPACE] @ m @ [SPACE] @ y"
    by (auto simp: is_date_text_def)
  from sh obtain a d' where d: "d = a # d'" "is_digit a"
    by (cases d) (auto simp: date_shape_def)
  from sh have "\<forall>c \<in> set d \<union> set m \<union> set y. \<not> is_space c"
    by (auto simp: date_shape_def digit_not_space alpha_not_space)
  with d s show ?thesis by auto
qed

text \<open>
  C6, as the code has it. The shape is looked for in the text after normalizeSpace has
  collapsed every run of white space to one space and trimmed both ends; a text of
  the shape, a day of one or two digits, a space, a month of three letters, a space
  and a year of four digits, is its own normal form. For every input whose normalized
  text has the shape, parseDateToISO returns the year, the number of the month and
  the day padded with a zero to two digits, joined by hyphens, when the month is one
  of the twelve abbreviations of the table, and the empty string when it is not. For
  every input whose normalized text has any other shape it returns the empty string.
\<close>

theorem parseDateToISO_shape:
  "(date_shape d m y \<longrightarrow>
      normalizeSpace (Some (d @ [SPACE] @ m @ [SPACE] @ y)) = d @ [SPACE] @ m @ [SPACE] @ y)
   \<and> (date_shape d m y \<and> normalizeSpace raw = d @ [SPACE] @ m @ [SPACE] @ y \<longrightarrow>
        parseDateToISO raw =
          (case MONTHS m of
             None \<Rightarrow> []
           | Some month \<Rightarrow> y @ [MINUS] @ month @ [MINUS] @ (if length d = 1 then ZERO # d else d)))
   \<and> (\<not> is_date_text (normalizeSpace raw) \<longrightarrow> parseDateToISO raw = [])"
proof (intro conjI impI)
  assume "date_shape d m y"
  then show "normalizeSpace (Some (d @ [SPACE] @ m @ [SPACE] @ y)) = d @ [SPACE] @ m @ [SPACE] @ y"
    by (rule normalizeSpace_date)
next
  assume a: "date_shape d m y \<and> normalizeSpace raw = d @ [SPACE] @ m @ [SPACE] @ y"
  then have sh: "date_shape d m y" and n: "normalizeSpace raw = d @ [SPACE] @ m @ [SPACE] @ y"
    by simp_all
  from sh have day: "padStart 2 ZERO (dec_string (Number_of_digits d))
                     = (if length d = 1 then ZERO # d else d)"
    by (intro day_padded) (simp_all add: date_shape_def)
  show "parseDateToISO raw =
          (case MONTHS m of
             None \<Rightarrow> []
           | Some month \<Rightarrow> y @ [MINUS] @ month @ [MINUS] @ (if length d = 1 then ZERO # d else d))"
    unfolding parseDateToISO_def n match_date_exact [OF sh] option.case prod.case Let_def day
    by (rule refl)
next
  assume no: "\<not> is_date_text (normalizeSpace raw)"
  show "parseDateToISO raw = []"
  proof (cases "match_date (normalizeSpace raw)")
    case None
    then show ?thesis by (simp add: parseDateToISO_def)
  next
    case (Some g)
    obtain g1 g2 g3 where g: "g = (g1, g2, g3)" by (cases g) auto
    from match_date_Some [OF Some [unfolded g]] obtain w1 w2
      where t: "normalizeSpace raw = g1 @ w1 @ g2 @ w2 @ g3" and sh: "date_shape g1 g2 g3"
        and w1: "w1 \<noteq> []" "\<forall>c \<in> set w1. is_space c"
        and w2: "w2 \<noteq> []" "\<forall>c \<in> set w2. is_space c"
      by blast
    from t have "normalizeSpace raw = g1 @ w1 @ (g2 @ w2 @ g3)" by simp
    from normalized_run [OF this w1] have 1: "w1 = [SPACE]" .
    from t have "normalizeSpace raw = (g1 @ w1 @ g2) @ w2 @ g3" by simp
    from normalized_run [OF this w2] have 2: "w2 = [SPACE]" .
    from t sh 1 2 have "is_date_text (normalizeSpace raw)"
      unfolding is_date_text_def by blast
    with no show ?thesis by simp
  qed
qed


theorem parseDateToISO_shape_witness:
  "parseDateToISO (Some (js ''5 Jan 2024'')) = js ''2024-01-05''
   \<and> parseDateToISO (Some (js ''31 Dec 1999'')) = js ''1999-12-31''
   \<and> parseDateToISO (Some (js ''5 Foo 2024'')) = []
   \<and> parseDateToISO (Some (js ''Jan 5 2024'')) = []"
proof -
  have sh1: "date_shape (js ''5'') (js ''Jan'') (js ''2024'')"
    and sh2: "date_shape (js ''31'') (js ''Dec'') (js ''1999'')"
    and sh3: "date_shape (js ''5'') (js ''Foo'') (js ''2024'')"
    by (simp_all add: date_shape_def js_def is_digit_def is_alpha_def)
  have e1: "js ''5 Jan 2024'' = js ''5'' @ [SPACE] @ js ''Jan'' @ [SPACE] @ js ''2024''"
    and e2: "js ''31 Dec 1999'' = js ''31'' @ [SPACE] @ js ''Dec'' @ [SPACE] @ js ''1999''"
    and e3: "js ''5 Foo 2024'' = js ''5'' @ [SPACE] @ js ''Foo'' @ [SPACE] @ js ''2024''"
    by (simp_all add: js_def)
  note n1 = parseDateToISO_shape [THEN conjunct1, THEN mp, OF sh1]
  note n2 = parseDateToISO_shape [THEN conjunct1, THEN mp, OF sh2]
  note n3 = parseDateToISO_shape [THEN conjunct1, THEN mp, OF sh3]
  have "parseDateToISO (Some (js ''5 Jan 2024'')) = js ''2024-01-05''"
    unfolding e1
    by (subst parseDateToISO_shape [THEN conjunct2, THEN conjunct1, THEN mp, OF conjI, OF sh1 n1])
       (simp add: MONTHS_def js_def)
  moreover have "parseDateToISO (Some (js ''31 Dec 1999'')) = js ''1999-12-31''"
    unfolding e2
    by (subst parseDateToISO_shape [THEN conjunct2, THEN conjunct1, THEN mp, OF conjI, OF sh2 n2])
       (simp add: MONTHS_def js_def)
  moreover have "parseDateToISO (Some (js ''5 Foo 2024'')) = []"
    unfolding e3
    by (subst parseDateToISO_shape [THEN conjunct2, THEN conjunct1, THEN mp, OF conjI, OF sh3 n3])
       (simp add: MONTHS_def js_def)
  moreover have "parseDateToISO (Some (js ''Jan 5 2024'')) = []"
  proof -
    have n: "normalizeSpace (Some (js ''Jan 5 2024'')) = js ''Jan 5 2024''"
      by (simp add: normalizeSpace_def trim_def js_def is_space_def)
    have "\<not> is_digit (hd (js ''Jan 5 2024''))"
      by (simp add: js_def is_digit_def)
    with date_text_chars [of "js ''Jan 5 2024''"] have "\<not> is_date_text (js ''Jan 5 2024'')"
      by blast
    with parseDateToISO_shape [THEN conjunct2, THEN conjunct2, of "Some (js ''Jan 5 2024'')"]
    show ?thesis by (simp add: n)
  qed
  ultimately show ?thesis by blast
qed

text \<open>The claim as it is worded fails on inputs that are not of the shape but whose
  normalized text is: a text with a line break between the month and the year, and a
  text with white space before the day and two spaces after it, are both parsed.\<close>

theorem parseDateToISO_counterexample:
  "\<not> is_date_text (js ''5 Jan'' @ [LF] @ js ''2024'')
   \<and> parseDateToISO (Some (js ''5 Jan'' @ [LF] @ js ''2024'')) = js ''2024-01-05''
   \<and> \<not> is_date_text (js '' 5  Jan 2024'')
   \<and> parseDateToISO (Some (js '' 5  Jan 2024'')) = js ''2024-01-05''"
proof -
  have "LF \<in> set (js ''5 Jan'' @ [LF] @ js ''2024'')" "is_space LF" "LF \<noteq> SPACE"
    by (simp_all add: is_space_def)
  with date_text_chars [of "js ''5 Jan'' @ [LF] @ js ''2024''"]
  have 1: "\<not> is_date_text (js ''5 Jan'' @ [LF] @ js ''2024'')" by blast
  have "\<not> is_digit (hd (js '' 5  Jan 2024''))"
    by (simp add: js_def is_digit_def)
  with date_text_chars [of "js '' 5  Jan 2024''"]
  have 2: "\<not> is_date_text (js '' 5  Jan 2024'')" by blast
  have n1: "normalizeSpace (Some (js ''5 Jan'' @ [LF] @ js ''2024'')) = js ''5 Jan 2024''"
    and n2: "normalizeSpace (Some (js '' 5  Jan 2024'')) = js ''5 Jan 2024''"
    by (simp_all add: normalizeSpace_def trim_def js_def is_space_def)
  have m: "match_date (js ''5 Jan 2024'') = Some (js ''5'', js ''Jan'', js ''2024'')"
    by (simp add: match_date_def js_def is_digit_def is_space_def is_alpha_def)
  have d: "padStart 2 ZERO (dec_string (Number_of_digits (js ''5''))) = js ''05''"
    by (simp add: padStart_def dec_string.simps Number_of_digits_def digit_value_def
        digit_char_def js_def)
  have mo: "MONTHS (js ''Jan'') = Some (js ''01'')"
    by (simp add: MONTHS_def js_def)
  have 3: "parseDateToISO (Some (js ''5 Jan'' @ [LF] @ js ''2024'')) = js ''2024-01-05''"
    unfolding parseDateToISO_def n1 m option.case prod.case Let_def d mo
    by (simp add: js_def)
  have 4: "parseDateToISO (Some (js '' 5  Jan 2024'')) = js ''2024-01-05''"
    unfolding parseDateToISO_def n2 m option.case prod.case Let_def d mo
    by (simp add: js_def)
  from 1 3 2 4 show ?thesis by blast
qed

section \<open>Properties of csvEscape\<close>

lemma csv_read_quoted_double_quotes:
  "rest = [] \<or> is_csv_sep (hd rest) \<Longrightarrow>
   csv_read_quoted (double_quotes s @ DQUOTE # rest) = Some (s, rest)"
proof (induction s)
  case Nil
  then show ?case
    by (cases rest) (auto simp: double_quotes_def is_csv_sep_def)
next
  case (Cons c s)
  then show ?case
    by (auto simp: double_quotes_def)
qed

lemma csv_read_unquoted:
  assumes "\<not> has_csv_special s" and "s @ rest \<noteq> []"
  shows "csv_read_field (s @ rest)
         = (if DQUOTE \<in> set (takeWhile (\<lambda>x. \<not> is_csv_sep x) (s @ rest)) then None
            else Some (takeWhile (\<lambda>x. \<not> is_csv_sep x) (s @ rest),
                       dropWhile (\<lambda>x. \<not> is_csv_sep x) (s @ rest)))
           \<or> s = []"
proof (cases s)
  case Nil
  then show ?thesis by simp
next
  case (Cons c cs)
  with assms(1) have "c \<noteq> DQUOTE" by (auto simp: has_csv_special_def)
  with Cons show ?thesis
    by (simp add: csv_read_field_def Let_def del: takeWhile_append dropWhile_append)
qed

lemma csv_read_plain:
  assumes "\<not> has_csv_special s" and "CR \<notin> set s" and "rest = [] \<or> is_csv_sep (hd rest)"
  shows "csv_read_field (s @ rest) = Some (s, rest)"
proof -
  from assms(1,2) have nosep: "\<forall>x \<in> set s. \<not> is_csv_sep x" and noq: "DQUOTE \<notin> set s"
    by (auto simp: has_csv_special_def is_csv_sep_def)
  from assms(3) have tw: "takeWhile (\<lambda>x. \<not> is_csv_sep x) (s @ rest) = s"
    and dw: "dropWhile (\<lambda>x. \<not> is_csv_sep x) (s @ rest) = rest"
    using nosep by (cases rest; simp)+
  show ?thesis
  proof (cases "s @ rest")
    case Nil
    then show ?thesis by (simp add: csv_read_field_def)
  next
    case (Cons c cs)
    have "c \<noteq> DQUOTE"
    proof (cases s)
      case Nil
      with Cons assms(3) show ?thesis by (auto simp: is_csv_sep_def)
    next
      case (Cons a list)
      with \<open>s @ rest = c # cs\<close> noq show ?thesis by auto
    qed
    with Cons tw dw noq show ?thesis
      by (simp add: csv_read_field_def Let_def del: takeWhile_append dropWhile_append)
  qed
qed

lemma csv_read_bare_CR:
  assumes "\<not> has_csv_special s" and "CR \<in> set s"
  shows "csv_read_field (s @ rest) \<noteq> Some (s, rest)"
proof -
  from assms(2) have sep: "\<exists>x \<in> set s. is_csv_sep x"
    by (auto simp: is_csv_sep_def)
  then have tw: "takeWhile (\<lambda>x. \<not> is_csv_sep x) (s @ rest) = takeWhile (\<lambda>x. \<not> is_csv_sep x) s"
    by auto
  from sep have ne: "takeWhile (\<lambda>x. \<not> is_csv_sep x) s \<noteq> s"
    by (auto simp: takeWhile_eq_all_conv)
  from assms(2) have "s \<noteq> []" "s @ rest \<noteq> []" by auto
  with csv_read_unquoted [OF assms(1), of rest]
  have "csv_read_field (s @ rest) = None
        \<or> csv_read_field (s @ rest)
            = Some (takeWhile (\<lambda>x. \<not> is_csv_sep x) s,
                    dropWhile (\<lambda>x. \<not> is_csv_sep x) (s @ rest))"
    unfolding tw by (auto split: if_splits)
  with ne show ?thesis by auto
qed

lemma normalizeSpace_no_CR: "CR \<notin> set (normalizeSpace raw)"
proof
  assume "CR \<in> set (normalizeSpace raw)"
  moreover have "is_space CR" by (simp add: is_space_def)
  ultimately have "CR = SPACE"
    using normalizeSpace_single_spaced [of raw] by blast
  then show False by simp
qed

text \<open>
  C4, as the code has it. csvEscape wraps a field in double quotes, with the quotes
  inside doubled, exactly when the field holds a comma, a double quote or a line feed,
  and emits it verbatim otherwise. A CSV reader that meets the escaped field, followed
  by the end of the text, a comma or a line break, reads back the original string and
  stops there exactly when the field holds a comma, a double quote or a line feed, or
  holds no carriage return: a carriage return in a field that is emitted verbatim is
  a line break to the reader. (normalizeSpace leaves no carriage return in the texts
  the script extracts.)
\<close>

theorem csvEscape_roundtrip:
  "csvEscape (Some s) =
     (if DQUOTE \<in> set s \<or> COMMA \<in> set s \<or> LF \<in> set s
      then [DQUOTE] @ concat (map (\<lambda>c. if c = DQUOTE then [DQUOTE, DQUOTE] else [c]) s) @ [DQUOTE]
      else s)
   \<and> (rest = [] \<or> is_csv_sep (hd rest) \<longrightarrow>
        (csv_read_field (csvEscape (Some s) @ rest) = Some (s, rest))
        = (DQUOTE \<in> set s \<or> COMMA \<in> set s \<or> LF \<in> set s \<or> CR \<notin> set s))"
proof (intro conjI impI)
  show "csvEscape (Some s) =
     (if DQUOTE \<in> set s \<or> COMMA \<in> set s \<or> LF \<in> set s
      then [DQUOTE] @ concat (map (\<lambda>c. if c = DQUOTE then [DQUOTE, DQUOTE] else [c]) s) @ [DQUOTE]
      else s)"
    by (auto simp: csvEscape_def has_csv_special_def double_quotes_def)
next
  assume r: "rest = [] \<or> is_csv_sep (hd rest)"
  have sp: "has_csv_special s = (DQUOTE \<in> set s \<or> COMMA \<in> set s \<or> LF \<in> set s)"
    by (auto simp: has_csv_special_def)
  show "(csv_read_field (csvEscape (Some s) @ rest) = Some (s, rest))
        = (DQUOTE \<in> set s \<or> COMMA \<in> set s \<or> LF \<in> set s \<or> CR \<notin> set s)"
  proof (cases "has_csv_special s")
    case True
    with r have A: "csv_read_field (csvEscape (Some s) @ rest) = Some (s, rest)"
      by (simp add: csvEscape_def csv_read_field_def csv_read_quoted_double_quotes)
    from True sp have B: "DQUOTE \<in> set s \<or> COMMA \<in> set s \<or> LF \<in> set s" by simp
    from A B show ?thesis by blast
  next
    case False
    then have e: "csvEscape (Some s) = s" by (simp add: csvEscape_def)
    show ?thesis
    proof (cases "CR \<in> set s")
      case True
      from csv_read_bare_CR [OF False True, of rest]
      have A: "csv_read_field (csvEscape (Some s) @ rest) \<noteq> Some (s, rest)"
        by (simp add: e)
      from False sp have B: "\<not> (DQUOTE \<in> set s \<or> COMMA \<in> set s \<or> LF \<in> set s)" by simp
      from A B True show ?thesis by blast
    next
      case nocr: False
      from csv_read_plain [OF False nocr r]
      have A: "csv_read_field (csvEscape (Some s) @ rest) = Some (s, rest)"
        by (simp add: e)
      from A nocr show ?thesis by blast
    qed
  qed
qed

theorem csvEscape_roundtrip_witness:
  "csvEscape (Some (js ''he said \"hi\"'')) = js ''\"he said \"\"hi\"\"\"''
   \<and> csv_read_field (csvEscape (Some (js ''a,b'')) @ js '',x'') = Some (js ''a,b'', js '',x'')
   \<and> csv_read_field (csvEscape (Some (js ''plain'')) @ [LF]) = Some (js ''plain'', [LF])"
proof -
  have "csvEscape (Some (js ''he said \"hi\"'')) = js ''\"he said \"\"hi\"\"\"''"
    by (simp add: csvEscape_roundtrip [THEN conjunct1] js_def)
  moreover have "csv_read_field (csvEscape (Some (js ''a,b'')) @ js '',x'') = Some (js ''a,b'', js '',x'')"
    using csvEscape_roundtrip [of "js ''a,b''" "js '',x''", THEN conjunct2]
    by (simp add: js_def is_csv_sep_def)
  moreover have "csv_read_field (csvEscape (Some (js ''plain'')) @ [LF]) = Some (js ''plain'', [LF])"
    using csvEscape_roundtrip [of "js ''plain''" "[LF]", THEN conjunct2]
    by (simp add: js_def is_csv_sep_def)
  ultimately show ?thesis by blast
qed

text \<open>The claim as it is worded, for every string field, fails on a field with a
  carriage return and no comma, double quote or line feed: it is emitted verbatim, and
  the reader takes the carriage return for the end of the record.\<close>

theorem csvEscape_counterexample:
  "csvEscape (Some (js ''a'' @ [CR] @ js ''b'')) = js ''a'' @ [CR] @ js ''b''
   \<and> csv_read_field (csvEscape (Some (js ''a'' @ [CR] @ js ''b'')) @ [LF])
       = Some (js ''a'', [CR] @ js ''b'' @ [LF])"
  by (simp add: csvEscape_def has_csv_special_def csv_read_field_def is_csv_sep_def js_def)

end
